theory Spec2Isabelle
  imports Complex_Main "HOL-Library.Multiset"
begin

section \<open>Types of the chess room (types.ts)\<close>

datatype Difficulty = Easy | Medium | Hard

datatype Mode = Solo | Duo

datatype PlayerColor = W | B

record LobbySelection =
  mode :: Mode
  difficulty :: Difficulty

section \<open>The interface of the rules library\<close>

text \<open>
  The rules of chess come from the library chess.js, which is not part of the repository.
  Its \<open>Chess\<close> object is taken as a parameter: a type \<open>'s\<close> of object states and a record
  of the methods the repository calls. A method that mutates the object returns the new
  state.

  \<open>move\<close> has three outcomes. It throws (\<open>Inl\<close>), leaving the object as it was: this is
  how chess.js from version 1.0 on, whose method names the repository uses, rejects a
  move (\<open>Error("Invalid move: ...")\<close>). It returns a falsy value (\<open>Inr None\<close>), again
  leaving the object as it was: this is the rejection the code of the repository tests for.
  Or it returns the move made, together with the new state.
\<close>

datatype js_error = TypeError | Error string

record Move =
  m_from :: string
  m_to :: string
  m_promotion :: "string option"
  m_captured :: "string option"

record MoveInput =
  from_sq :: string
  to_sq :: string
  promotion :: "string option"

record Piece =
  ptype :: string
  pcolor :: PlayerColor

record 's Chess =
  new_Chess :: 's
  load :: "string \<Rightarrow> 's"
  reset :: "'s \<Rightarrow> 's"
  fen :: "'s \<Rightarrow> string"
  turn :: "'s \<Rightarrow> PlayerColor"
  board :: "'s \<Rightarrow> Piece option list list"
  moves :: "'s \<Rightarrow> Move list"
  move :: "'s \<Rightarrow> MoveInput \<Rightarrow> js_error + (Move \<times> 's) option"
  undo :: "'s \<Rightarrow> 's"
  isCheck :: "'s \<Rightarrow> bool"
  isCheckmate :: "'s \<Rightarrow> bool"
  isStalemate :: "'s \<Rightarrow> bool"
  isDraw :: "'s \<Rightarrow> bool"
  isThreefoldRepetition :: "'s \<Rightarrow> bool"
  isInsufficientMaterial :: "'s \<Rightarrow> bool"
  isGameOver :: "'s \<Rightarrow> bool"

text \<open>
  The source of randomness of the JavaScript runtime, with its own state \<open>'g\<close>:
  \<open>math_random\<close> is \<open>Math.random()\<close>, giving the value of the double it returns;
  \<open>sort_shuffle\<close> is \<open>moves.sort(() => Math.random() - 0.5)\<close>, whose resulting order is
  left to the runtime.
\<close>

record 'g Rng =
  math_random :: "'g \<Rightarrow> real \<times> 'g"
  sort_shuffle :: "'g \<Rightarrow> Move list \<Rightarrow> Move list \<times> 'g"

text \<open>The move object \<open>{ from, to, promotion }\<close> read off a verbose move.\<close>

definition input_of :: "Move \<Rightarrow> MoveInput" where
  "input_of m = \<lparr>from_sq = m_from m, to_sq = m_to m, promotion = m_promotion m\<rparr>"

text \<open>The position a listed move leads to (the position itself where the move is not made).\<close>

definition position_after :: "'s Chess \<Rightarrow> 's \<Rightarrow> Move \<Rightarrow> 's" where
  "position_after C s m = (case move C s (input_of m) of Inr (Some (r, s')) \<Rightarrow> s' | _ \<Rightarrow> s)"

text \<open>\<open>m.from + m.to + (m.promotion ? m.promotion : "")\<close>\<close>

definition uci_of :: "Move \<Rightarrow> string" where
  "uci_of m = m_from m @ m_to m @ (case m_promotion m of None \<Rightarrow> [] | Some p \<Rightarrow> p)"

text \<open>The three slices \<open>slice(0, 2)\<close>, \<open>slice(2, 4)\<close> and \<open>slice(4, 5) || undefined\<close>.\<close>

definition parse_uci :: "string \<Rightarrow> MoveInput" where
  "parse_uci uci =
     \<lparr>from_sq = take 2 uci, to_sq = take 2 (drop 2 uci),
      promotion = (let p = take 1 (drop 4 uci) in if p = [] then None else Some p)\<rparr>"

section \<open>Scores: JavaScript numbers with both infinities\<close>

datatype score = NegInf | Fin int | PosInf

fun score_le :: "score \<Rightarrow> score \<Rightarrow> bool" where
  "score_le NegInf y = True"
| "score_le x PosInf = True"
| "score_le (Fin a) (Fin b) = (a \<le> b)"
| "score_le x y = False"

instantiation score :: linorder
begin

definition less_eq_score :: "score \<Rightarrow> score \<Rightarrow> bool" where
  "less_eq_score x y = score_le x y"

definition less_score :: "score \<Rightarrow> score \<Rightarrow> bool" where
  "less_score x y = (score_le x y \<and> \<not> score_le y x)"

instance
proof
  fix x y z :: score
  show "(x < y) = (x \<le> y \<and> \<not> y \<le> x)"
    by (simp add: less_eq_score_def less_score_def)
  show "x \<le> x"
    by (cases x) (simp_all add: less_eq_score_def)
  show "x \<le> y \<Longrightarrow> y \<le> z \<Longrightarrow> x \<le> z"
    by (cases x; cases y; cases z) (simp_all add: less_eq_score_def)
  show "x \<le> y \<Longrightarrow> y \<le> x \<Longrightarrow> x = y"
    by (cases x; cases y) (simp_all add: less_eq_score_def)
  show "x \<le> y \<or> y \<le> x"
    by (cases x; cases y) (auto simp add: less_eq_score_def)
qed

end

section \<open>The computer opponent (ai.ts)\<close>

definition PIECE_VALUES :: "string \<Rightarrow> int option" where
  "PIECE_VALUES =
     map_of [(''p'', 100), (''n'', 320), (''b'', 330), (''r'', 500), (''q'', 900), (''k'', 0)]"

definition piece_term :: "PlayerColor \<Rightarrow> Piece option \<Rightarrow> int" where
  "piece_term forColor sq =
     (case sq of
        None \<Rightarrow> 0
      | Some piece \<Rightarrow>
          (let v = (case PIECE_VALUES (ptype piece) of None \<Rightarrow> 0 | Some n \<Rightarrow> n)
           in if pcolor piece = forColor then v else - v))"

definition evaluate :: "'s Chess \<Rightarrow> 's \<Rightarrow> PlayerColor \<Rightarrow> int" where
  "evaluate C chess forColor =
     (let score = fold (\<lambda>row acc. fold (\<lambda>piece a. a + piece_term forColor piece) row acc)
                       (board C chess) 0;
          n = int (length (moves C chess))
      in score + (if turn C chess = forColor then n else - n))"

text \<open>
  The product of two JavaScript numbers is the exact product rounded to the nearest double,
  ties to the even significand. \<open>to_double\<close> is that rounding for 53 bits of significand;
  the range of the exponent is left unbounded, which makes no difference to the products
  of a double in \<open>[0, 1)\<close> with the length of an array.
\<close>

definition round_even :: "real \<Rightarrow> int" where
  "round_even q =
     (let f = \<lfloor>q\<rfloor>; d = q - of_int f
      in if d < 1 / 2 then f else if 1 / 2 < d then f + 1 else if even f then f else f + 1)"

definition to_double :: "real \<Rightarrow> real" where
  "to_double x =
     (if x = 0 then 0
      else (let ulp = 2 powr (of_int \<lfloor>log 2 \<bar>x\<bar>\<rfloor> - 52)
            in of_int (round_even (x / ulp)) * ulp))"

text \<open>
  \<open>arr[Math.floor(Math.random() * arr.length)]\<close>: an index outside the array reads
  \<open>undefined\<close>, here \<open>None\<close>.
\<close>

definition pickRandom :: "'g Rng \<Rightarrow> 'g \<Rightarrow> 'a list \<Rightarrow> 'a option \<times> 'g" where
  "pickRandom R g arr =
     (let (u, g') = math_random R g;
          i = \<lfloor>to_double (u * real (length arr))\<rfloor>
      in (if 0 \<le> i \<and> nat i < length arr then Some (arr ! nat i) else None, g'))"

text \<open>The score of a node at which the search stops (depth 0 or game over).\<close>

definition leaf_score :: "'s Chess \<Rightarrow> 's \<Rightarrow> PlayerColor \<Rightarrow> score" where
  "leaf_score C chess maximizingFor =
     (if isCheckmate C chess then
        (let winner = (if turn C chess = W then B else W)
         in Fin (if winner = maximizingFor then 100000 else - 100000))
      else if isDraw C chess \<or> isStalemate C chess \<or> isThreefoldRepetition C chess
              \<or> isInsufficientMaterial C chess then Fin 0
      else Fin (evaluate C chess maximizingFor))"

text \<open>
  The loop \<open>for (const m of moves)\<close> of \<open>minimax\<close>. \<open>rec\<close> is the recursive call at
  \<open>depth - 1\<close>; the loop carries the generator, the chess object, \<open>alpha\<close>, \<open>beta\<close>,
  \<open>bestScore\<close> and \<open>bestMove\<close>, and stops at \<open>break\<close>. An exception thrown by
  \<open>chess.move(m)\<close> or by the recursive call leaves the loop at once, without \<open>undo\<close>; a
  falsy result of \<open>chess.move(m)\<close> is dropped and the loop goes on with the object as it is.
\<close>

fun search_loop ::
  "('g \<Rightarrow> 's \<Rightarrow> score \<Rightarrow> score \<Rightarrow> (js_error + score \<times> string option) \<times> 'g \<times> 's) \<Rightarrow>
   's Chess \<Rightarrow> bool \<Rightarrow> Move list \<Rightarrow> 'g \<Rightarrow> 's \<Rightarrow> score \<Rightarrow> score \<Rightarrow> score \<Rightarrow> string option \<Rightarrow>
   (js_error + score \<times> string option) \<times> 'g \<times> 's" where
  "search_loop rec C isMax [] g chess alpha beta bestScore bestMove =
     (Inr (bestScore, bestMove), g, chess)"
| "search_loop rec C isMax (m # ms) g chess alpha beta bestScore bestMove =
     (case move C chess (input_of m) of
        Inl e \<Rightarrow> (Inl e, g, chess)
      | Inr made \<Rightarrow>
          (case rec g (case made of None \<Rightarrow> chess | Some (r, c) \<Rightarrow> c) alpha beta of
             (Inl e, g1, chess1) \<Rightarrow> (Inl e, g1, chess1)
           | (Inr (score, mv), g1, chess1) \<Rightarrow>
               (let chess2 = undo C chess1 in
                if isMax then
                  (let bestScore' = (if bestScore < score then score else bestScore);
                       bestMove' = (if bestScore < score then Some (uci_of m) else bestMove);
                       alpha' = max alpha bestScore'
                   in if beta \<le> alpha' then (Inr (bestScore', bestMove'), g1, chess2)
                      else search_loop rec C isMax ms g1 chess2 alpha' beta bestScore' bestMove')
                else
                  (let bestScore' = (if score < bestScore then score else bestScore);
                       bestMove' = (if score < bestScore then Some (uci_of m) else bestMove);
                       beta' = min beta bestScore'
                   in if beta' \<le> alpha then (Inr (bestScore', bestMove'), g1, chess2)
                      else search_loop rec C isMax ms g1 chess2 alpha beta' bestScore' bestMove'))))"

primrec minimax ::
  "'s Chess \<Rightarrow> 'g Rng \<Rightarrow> nat \<Rightarrow> PlayerColor \<Rightarrow> 'g \<Rightarrow> 's \<Rightarrow> score \<Rightarrow> score \<Rightarrow>
   (js_error + score \<times> string option) \<times> 'g \<times> 's" where
  "minimax C R 0 maximizingFor =
     (\<lambda>g chess alpha beta. (Inr (leaf_score C chess maximizingFor, None), g, chess))"
| "minimax C R (Suc d) maximizingFor =
     (\<lambda>g chess alpha beta.
        if isGameOver C chess then (Inr (leaf_score C chess maximizingFor, None), g, chess)
        else
          (case sort_shuffle R g (moves C chess) of
             (ms, g1) \<Rightarrow>
               (let isMax = (turn C chess = maximizingFor)
                in search_loop (minimax C R d maximizingFor) C isMax ms g1 chess alpha beta
                     (if isMax then NegInf else PosInf) None)))"

definition is_capture :: "Move \<Rightarrow> bool" where
  "is_capture m = (case m_captured m of None \<Rightarrow> False | Some c \<Rightarrow> c \<noteq> [])"

text \<open>
  \<open>chooseAiMove\<close> returns a move string or \<open>null\<close>, or throws: the \<open>TypeError\<close> of reading
  a field of an undefined choice, or whatever the search lets through.
\<close>

definition chooseAiMove ::
  "'s Chess \<Rightarrow> 'g Rng \<Rightarrow> 'g \<Rightarrow> string \<Rightarrow> PlayerColor \<Rightarrow> Difficulty \<Rightarrow>
   (js_error + string option) \<times> 'g" where
  "chooseAiMove C R g fenstr aiColor diff =
     (let chess = load C fenstr in
      if isGameOver C chess then (Inr None, g)
      else if turn C chess \<noteq> aiColor then (Inr None, g)
      else
        (let depth = (if diff = Easy then 1 else if diff = Medium then 2 else (3::nat)) in
         if diff = Easy then
           (let ms = moves C chess;
                captures = filter is_capture ms
            in case (if captures \<noteq> [] then pickRandom R g captures else pickRandom R g ms) of
                 (None, g') \<Rightarrow> (Inl TypeError, g')
               | (Some choice, g') \<Rightarrow> (Inr (Some (uci_of choice)), g'))
         else
           (case minimax C R depth aiColor g chess NegInf PosInf of
              (Inl e, g', chess') \<Rightarrow> (Inl e, g')
            | (Inr (score, mv), g', chess') \<Rightarrow> (Inr mv, g'))))"

section \<open>The match (game.ts)\<close>

record Seat =
  playerId :: string
  color :: PlayerColor

text \<open>\<open>Partial<Record<PlayerColor, Seat>>\<close>: one optional seat under each of the two keys.\<close>

record Seats =
  seat_w :: "Seat option"
  seat_b :: "Seat option"

definition seat_at :: "Seats \<Rightarrow> PlayerColor \<Rightarrow> Seat option" where
  "seat_at ss c = (case c of W \<Rightarrow> seat_w ss | B \<Rightarrow> seat_b ss)"

datatype RoomStatus = Lobby | Playing | Ended

record 's ChessRoom =
  room_id :: string
  selection :: LobbySelection
  seats :: Seats
  chess :: 's
  status :: RoomStatus
  winner :: "PlayerColor option"
  endReason :: "string option"
  lastMove :: "string option"

definition defaultSelection :: LobbySelection where
  "defaultSelection = \<lparr>mode = Solo, difficulty = Easy\<rparr>"

definition createRoom :: "'s Chess \<Rightarrow> string \<Rightarrow> 's ChessRoom" where
  "createRoom C ident =
     \<lparr>room_id = ident, selection = defaultSelection,
      seats = \<lparr>seat_w = None, seat_b = None\<rparr>, chess = new_Chess C, status = Lobby,
      winner = None, endReason = None, lastMove = None\<rparr>"

record SeatResult =
  seat_ok :: bool
  seat_color :: "PlayerColor option"
  seat_reason :: "string option"

definition occupies :: "Seats \<Rightarrow> PlayerColor \<Rightarrow> string \<Rightarrow> bool" where
  "occupies ss c pid = (case seat_at ss c of None \<Rightarrow> False | Some st \<Rightarrow> playerId st = pid)"

definition assignSeat :: "'s ChessRoom \<Rightarrow> string \<Rightarrow> SeatResult \<times> 's ChessRoom" where
  "assignSeat room pid =
     (if occupies (seats room) W pid then
        (\<lparr>seat_ok = True, seat_color = Some W, seat_reason = None\<rparr>, room)
      else if occupies (seats room) B pid then
        (\<lparr>seat_ok = True, seat_color = Some B, seat_reason = None\<rparr>, room)
      else if mode (selection room) = Solo then
        (if (case seat_w (seats room) of None \<Rightarrow> False | Some st \<Rightarrow> playerId st \<noteq> pid) then
           (\<lparr>seat_ok = False, seat_color = None,
             seat_reason = Some ''Room already has a solo player.''\<rparr>, room)
         else
           (\<lparr>seat_ok = True, seat_color = Some W, seat_reason = None\<rparr>,
            room\<lparr>seats := \<lparr>seat_w = Some \<lparr>playerId = pid, color = W\<rparr>,
                            seat_b = Some \<lparr>playerId = ''AI'', color = B\<rparr>\<rparr>\<rparr>))
      else if seat_w (seats room) = None then
        (\<lparr>seat_ok = True, seat_color = Some W, seat_reason = None\<rparr>,
         room\<lparr>seats := (seats room)\<lparr>seat_w := Some \<lparr>playerId = pid, color = W\<rparr>\<rparr>\<rparr>)
      else if seat_b (seats room) = None then
        (\<lparr>seat_ok = True, seat_color = Some B, seat_reason = None\<rparr>,
         room\<lparr>seats := (seats room)\<lparr>seat_b := Some \<lparr>playerId = pid, color = B\<rparr>\<rparr>\<rparr>)
      else (\<lparr>seat_ok = False, seat_color = None, seat_reason = Some ''Room full''\<rparr>, room))"

definition canStart :: "'s ChessRoom \<Rightarrow> bool" where
  "canStart room =
     (if status room \<noteq> Lobby then False
      else if mode (selection room) = Solo then seat_w (seats room) \<noteq> None
      else seat_w (seats room) \<noteq> None \<and> seat_b (seats room) \<noteq> None)"

definition startGame :: "'s Chess \<Rightarrow> 's ChessRoom \<Rightarrow> 's ChessRoom" where
  "startGame C room =
     room\<lparr>chess := new_Chess C, status := Playing, winner := None, endReason := None,
          lastMove := None\<rparr>"

definition maybeFinalize :: "'s Chess \<Rightarrow> 's ChessRoom \<Rightarrow> 's ChessRoom" where
  "maybeFinalize C room =
     (let c = chess room in
      if \<not> isGameOver C c then room
      else
        (let room1 = room\<lparr>status := Ended\<rparr> in
         if isCheckmate C c then
           room1\<lparr>winner := Some (if turn C c = W then B else W), endReason := Some ''checkmate''\<rparr>
         else if isStalemate C c then room1\<lparr>endReason := Some ''stalemate''\<rparr>
         else if isInsufficientMaterial C c then
           room1\<lparr>endReason := Some ''insufficient material''\<rparr>
         else if isThreefoldRepetition C c then
           room1\<lparr>endReason := Some ''threefold repetition''\<rparr>
         else if isDraw C c then room1\<lparr>endReason := Some ''draw''\<rparr>
         else room1))"

record MoveResult =
  ok :: bool
  reason :: "string option"

text \<open>
  \<open>applyMove\<close> returns its result record, or lets an exception through: it has no
  \<open>try\<close>, so what \<open>room.chess.move\<close> or \<open>chooseAiMove\<close> throws leaves \<open>applyMove\<close> as
  it is. In both cases the model gives the room and the generator as the call leaves them.
\<close>

definition applyMove ::
  "'s Chess \<Rightarrow> 'g Rng \<Rightarrow> 'g \<Rightarrow> 's ChessRoom \<Rightarrow> string \<Rightarrow> string \<Rightarrow>
   (js_error + MoveResult) \<times> 's ChessRoom \<times> 'g" where
  "applyMove C R g room pid uci =
     (if status room \<noteq> Playing then
        (Inr \<lparr>ok = False, reason = Some ''Not playing''\<rparr>, room, g)
      else if \<not> occupies (seats room) (turn C (chess room)) pid then
        (Inr \<lparr>ok = False, reason = Some ''Not your turn''\<rparr>, room, g)
      else
        (case move C (chess room) (parse_uci uci) of
           Inl e \<Rightarrow> (Inl e, room, g)
         | Inr None \<Rightarrow> (Inr \<lparr>ok = False, reason = Some ''Illegal move''\<rparr>, room, g)
         | Inr (Some (mv, c1)) \<Rightarrow>
             (let room1 = maybeFinalize C (room\<lparr>chess := c1, lastMove := Some (uci_of mv)\<rparr>) in
              if mode (selection room1) = Solo \<and> status room1 = Playing then
                (case chooseAiMove C R g (fen C (chess room1)) B (difficulty (selection room1)) of
                   (Inl e, g') \<Rightarrow> (Inl e, room1, g')
                 | (Inr None, g') \<Rightarrow> (Inr \<lparr>ok = True, reason = None\<rparr>, room1, g')
                 | (Inr (Some aiMove), g') \<Rightarrow>
                     (case move C (chess room1) (parse_uci aiMove) of
                        Inl e \<Rightarrow> (Inl e, room1, g')
                      | Inr None \<Rightarrow> (Inr \<lparr>ok = True, reason = None\<rparr>, room1, g')
                      | Inr (Some (moved, c2)) \<Rightarrow>
                          (Inr \<lparr>ok = True, reason = None\<rparr>,
                           maybeFinalize C (room1\<lparr>chess := c2, lastMove := Some (uci_of moved)\<rparr>),
                           g')))
              else (Inr \<lparr>ok = True, reason = None\<rparr>, room1, g))))"

section \<open>The server's event handlers (index.ts)\<close>

text \<open>
  The state the handlers close over: the room, the keys of the map \<open>players\<close> in insertion
  order, and the map \<open>colors\<close>. Messages sent to the user interface are not part of it.
\<close>

record 's Server =
  room :: "'s ChessRoom"
  players :: "string list"
  colors :: "string \<Rightarrow> PlayerColor option"

definition resetToLobby :: "'s Chess \<Rightarrow> 's Server \<Rightarrow> 's Server" where
  "resetToLobby C srv =
     srv\<lparr>room := (room srv)\<lparr>status := Lobby, winner := None, endReason := None,
                             lastMove := None, chess := reset C (chess (room srv)),
                             seats := \<lparr>seat_w = None, seat_b = None\<rparr>\<rparr>,
         colors := (\<lambda>p. None)\<rparr>"

text \<open>The handler of \<open>PlayerEvent.LEFT_WORLD\<close> for the player \<open>pid\<close>.\<close>

definition on_left_world :: "'s Chess \<Rightarrow> 's Server \<Rightarrow> string \<Rightarrow> 's Server" where
  "on_left_world C srv pid =
     (let srv1 = srv\<lparr>players := removeAll pid (players srv), colors := (colors srv)(pid := None)\<rparr>;
          srv2 = (if mode (selection (room srv1)) = Duo \<and> status (room srv1) = Playing then
                    srv1\<lparr>room := (room srv1)\<lparr>status := Ended, winner := None,
                                             endReason := Some ''opponent disconnected''\<rparr>\<rparr>
                  else srv1)
      in if mode (selection (room srv2)) = Solo \<and> length (players srv2) = 0 then resetToLobby C srv2
         else srv2)"

text \<open>
  The handler of the action \<open>lobby.start\<close> sent by the player \<open>pid\<close>. Its branch is guarded
  by \<open>room.status === "lobby"\<close>; outside the lobby the message reaches no other branch.
\<close>

definition on_lobby_start :: "'s Chess \<Rightarrow> 's Server \<Rightarrow> string \<Rightarrow> 's Server" where
  "on_lobby_start C srv pid =
     (if status (room srv) = Lobby then
        (let yourColor = colors srv pid in
         if mode (selection (room srv)) = Duo \<and> yourColor \<noteq> Some W then srv
         else if \<not> canStart (room srv) then srv
         else srv\<lparr>room := startGame C (room srv)\<rparr>)
      else srv)"





section \<open>What the repository relies on from the library and the runtime\<close>

text \<open>A position that is not over has a legal move.\<close>

definition moves_law :: "'s Chess \<Rightarrow> bool" where
  "moves_law C = (\<forall>s. \<not> isGameOver C s \<longrightarrow> moves C s \<noteq> [])"

text \<open>Every listed move is accepted, and \<open>undo\<close> takes the object back to where it was.\<close>

definition undo_law :: "'s Chess \<Rightarrow> bool" where
  "undo_law C =
     (\<forall>s m. m \<in> set (moves C s) \<longrightarrow>
        (\<exists>r s'. move C s (input_of m) = Inr (Some (r, s')) \<and> undo C s' = s))"

text \<open>An accepted move passes the turn to the other color.\<close>

definition turn_law :: "'s Chess \<Rightarrow> bool" where
  "turn_law C =
     (\<forall>s i r s'. move C s i = Inr (Some (r, s')) \<longrightarrow> turn C s' = (if turn C s = W then B else W))"

text \<open>
  An object built from the FEN string of another has the same side to move and the same
  legal moves, and is over only if the other is.
\<close>

definition fen_law :: "'s Chess \<Rightarrow> bool" where
  "fen_law C =
     (\<forall>s. turn C (load C (fen C s)) = turn C s \<and> moves C (load C (fen C s)) = moves C s
          \<and> (isGameOver C (load C (fen C s)) \<longrightarrow> isGameOver C s))"

text \<open>Squares are two characters, a promotion piece is one.\<close>

definition shape_law :: "'s Chess \<Rightarrow> bool" where
  "shape_law C =
     (\<forall>s m. m \<in> set (moves C s) \<longrightarrow>
        length (m_from m) = 2 \<and> length (m_to m) = 2
        \<and> (case m_promotion m of None \<Rightarrow> True | Some p \<Rightarrow> length p = 1))"

text \<open>
  Sorting permutes the array; \<open>Math.random()\<close> is a double in \<open>[0, 1)\<close>, of which the
  largest is \<open>1 - 2^-53\<close>.
\<close>

definition shuffle_law :: "'g Rng \<Rightarrow> bool" where
  "shuffle_law R = (\<forall>g xs. mset (fst (sort_shuffle R g xs)) = mset xs)"

definition random_law :: "'g Rng \<Rightarrow> bool" where
  "random_law R = (\<forall>g. 0 \<le> fst (math_random R g) \<and> fst (math_random R g) \<le> 1 - 1 / 2 ^ 53)"

section \<open>Minimax without pruning\<close>

text \<open>
  The value of a position under plain depth-limited minimax: the largest child value where
  the side to move is the maximizing color, the smallest otherwise, over the legal moves in
  the order the library lists them.
\<close>

primrec plain_minimax :: "'s Chess \<Rightarrow> PlayerColor \<Rightarrow> nat \<Rightarrow> 's \<Rightarrow> score" where
  "plain_minimax C maximizingFor 0 = (\<lambda>chess. leaf_score C chess maximizingFor)"
| "plain_minimax C maximizingFor (Suc d) =
     (\<lambda>chess.
        if isGameOver C chess then leaf_score C chess maximizingFor
        else if turn C chess = maximizingFor then
          fold max (map (\<lambda>m. plain_minimax C maximizingFor d (position_after C chess m)) (moves C chess))
            NegInf
        else
          fold min (map (\<lambda>m. plain_minimax C maximizingFor d (position_after C chess m)) (moves C chess))
            PosInf)"

text \<open>
  What an alpha-beta result \<open>r\<close> says about the true value \<open>v\<close> for the window
  \<open>(a, b)\<close>: exact inside the window, a bound on the right side outside it.
\<close>

definition window_sound :: "'a::linorder \<Rightarrow> 'a \<Rightarrow> 'a \<Rightarrow> 'a \<Rightarrow> bool" where
  "window_sound a b v r = ((r \<le> a \<longrightarrow> v \<le> r) \<and> (a < r \<and> r < b \<longrightarrow> r = v) \<and> (b \<le> r \<longrightarrow> r \<le> v))"

text \<open>
  What the loop at the root of a search with the full window knows about \<open>bestScore\<close> and
  \<open>bestMove\<close>: either both still hold their initial values, or the move is the string of
  a listed move whose value is the score.
\<close>

definition root_inv :: "Move set \<Rightarrow> (Move \<Rightarrow> score) \<Rightarrow> score \<Rightarrow> score \<Rightarrow> string option \<Rightarrow> bool" where
  "root_inv M val init best bm =
     ((bm = None \<and> best = init) \<or> (\<exists>m \<in> M. bm = Some (uci_of m) \<and> val m = best))"

text \<open>
  A match that is being played has no winner recorded: \<open>startGame\<close> clears the field, and
  it is written again only together with the status \<open>ended\<close>.
\<close>

definition no_stale_winner :: "'s ChessRoom \<Rightarrow> bool" where
  "no_stale_winner rm = (status rm = Playing \<longrightarrow> winner rm = None)"

section \<open>A small game for concrete runs\<close>

text \<open>
  A pile of tokens; a move takes one to five tokens (\<open>a1a2\<close> to \<open>a1a6\<close>), and taking
  four or five is listed as a capture; the side that finds the pile empty is mated. Like
  chess.js, the object throws on a move it rejects. It keeps the history of its moves for
  \<open>undo\<close>, and the game is drawn once six moves are on it; the FEN string does not carry
  the history.
\<close>

record pile_game =
  pile :: nat
  mover :: PlayerColor
  hist :: "nat list"

definition take_one :: Move where
  "take_one = \<lparr>m_from = ''a1'', m_to = ''a2'', m_promotion = None, m_captured = None\<rparr>"

definition take_two :: Move where
  "take_two = \<lparr>m_from = ''a1'', m_to = ''a3'', m_promotion = None, m_captured = None\<rparr>"

definition take_three :: Move where
  "take_three = \<lparr>m_from = ''a1'', m_to = ''a4'', m_promotion = None, m_captured = None\<rparr>"

definition take_four :: Move where
  "take_four = \<lparr>m_from = ''a1'', m_to = ''a5'', m_promotion = None, m_captured = Some ''p''\<rparr>"

definition take_five :: Move where
  "take_five = \<lparr>m_from = ''a1'', m_to = ''a6'', m_promotion = None, m_captured = Some ''n''\<rparr>"

definition other :: "PlayerColor \<Rightarrow> PlayerColor" where
  "other c = (if c = W then B else W)"

definition pile_moves :: "pile_game \<Rightarrow> Move list" where
  "pile_moves s =
     (if pile s = 0 then []
      else if pile s = 1 then [take_one]
      else if pile s = 2 then [take_one, take_two]
      else if pile s = 3 then [take_one, take_two, take_three]
      else if pile s = 4 then [take_one, take_two, take_three, take_four]
      else [take_one, take_two, take_three, take_four, take_five])"

definition taken :: "pile_game \<Rightarrow> nat \<Rightarrow> pile_game" where
  "taken s k = \<lparr>pile = pile s - k, mover = other (mover s), hist = k # hist s\<rparr>"

definition pile_move :: "pile_game \<Rightarrow> MoveInput \<Rightarrow> js_error + (Move \<times> pile_game) option" where
  "pile_move s i =
     (if i = input_of take_one \<and> 1 \<le> pile s then Inr (Some (take_one, taken s 1))
      else if i = input_of take_two \<and> 2 \<le> pile s then Inr (Some (take_two, taken s 2))
      else if i = input_of take_three \<and> 3 \<le> pile s then Inr (Some (take_three, taken s 3))
      else if i = input_of take_four \<and> 4 \<le> pile s then Inr (Some (take_four, taken s 4))
      else if i = input_of take_five \<and> 5 \<le> pile s then Inr (Some (take_five, taken s 5))
      else Inl (Error ''Invalid move''))"

definition pile_undo :: "pile_game \<Rightarrow> pile_game" where
  "pile_undo s =
     (case hist s of
        [] \<Rightarrow> s
      | k # h \<Rightarrow> \<lparr>pile = pile s + k, mover = other (mover s), hist = h\<rparr>)"

definition pile_fen :: "pile_game \<Rightarrow> string" where
  "pile_fen s = (if mover s = W then CHR ''w'' else CHR ''b'') # replicate (pile s) CHR ''o''"

definition pile_load :: "string \<Rightarrow> pile_game" where
  "pile_load str =
     \<lparr>pile = length str - 1, mover = (if take 1 str = ''w'' then W else B), hist = []\<rparr>"

definition pile_new :: pile_game where
  "pile_new = \<lparr>pile = 3, mover = W, hist = []\<rparr>"

definition pile_chess :: "pile_game Chess" where
  "pile_chess =
     \<lparr>new_Chess = pile_new, load = pile_load, reset = (\<lambda>s. pile_new), fen = pile_fen,
      turn = mover,
      board = (\<lambda>s. [replicate (pile s) (Some \<lparr>ptype = ''p'', pcolor = W\<rparr>)]),
      moves = pile_moves, move = pile_move, undo = pile_undo,
      isCheck = (\<lambda>s. False), isCheckmate = (\<lambda>s. pile s = 0), isStalemate = (\<lambda>s. False),
      isDraw = (\<lambda>s. 6 \<le> length (hist s)), isThreefoldRepetition = (\<lambda>s. False),
      isInsufficientMaterial = (\<lambda>s. False),
      isGameOver = (\<lambda>s. pile s = 0 \<or> 6 \<le> length (hist s))\<rparr>"

text \<open>
  A generator counting its calls: \<open>Math.random()\<close> alternates between \<open>0\<close> and \<open>1/2\<close>,
  sorting alternates between keeping and reversing the order.
\<close>

definition flip_rng :: "nat Rng" where
  "flip_rng =
     \<lparr>math_random = (\<lambda>g. (if even g then 0 else 1 / 2, Suc g)),
      sort_shuffle = (\<lambda>g xs. (if even g then xs else rev xs, Suc g))\<rparr>"


definition pile_room :: "Mode \<Rightarrow> Difficulty \<Rightarrow> RoomStatus \<Rightarrow> nat \<Rightarrow> pile_game ChessRoom" where
  "pile_room md df st n =
     \<lparr>room_id = ''main'', selection = \<lparr>mode = md, difficulty = df\<rparr>,
      seats = \<lparr>seat_w = Some \<lparr>playerId = ''1'', color = W\<rparr>,
               seat_b = Some \<lparr>playerId = (if md = Solo then ''AI'' else ''2''), color = B\<rparr>\<rparr>,
      chess = \<lparr>pile = n, mover = W, hist = []\<rparr>, status = st,
      winner = None, endReason = None, lastMove = None\<rparr>"


section \<open>The small game meets what the repository relies on\<close>

lemma not_W_iff [simp]: "(c \<noteq> W) = (c = B)"
  by (cases c) simp_all

lemma not_B_iff [simp]: "(c \<noteq> B) = (c = W)"
  by (cases c) simp_all

lemma pile_moves_law: "moves_law pile_chess"
  by (simp add: moves_law_def pile_chess_def pile_moves_def)

lemmas take_defs = take_one_def take_two_def take_three_def take_four_def take_five_def

lemma pile_undo_taken: "k \<le> pile s \<Longrightarrow> pile_undo (taken s k) = s"
  by (cases s; cases "mover s") (simp_all add: pile_undo_def taken_def other_def)

lemma pile_listed:
  "m \<in> set (pile_moves s) \<Longrightarrow>
   (m = take_one \<and> 1 \<le> pile s) \<or> (m = take_two \<and> 2 \<le> pile s)
   \<or> (m = take_three \<and> 3 \<le> pile s) \<or> (m = take_four \<and> 4 \<le> pile s)
   \<or> (m = take_five \<and> 5 \<le> pile s)"
  by (auto simp add: pile_moves_def split: if_splits)

lemma pile_move_listed:
  "1 \<le> pile s \<Longrightarrow> pile_move s (input_of take_one) = Inr (Some (take_one, taken s 1))"
  "2 \<le> pile s \<Longrightarrow> pile_move s (input_of take_two) = Inr (Some (take_two, taken s 2))"
  "3 \<le> pile s \<Longrightarrow> pile_move s (input_of take_three) = Inr (Some (take_three, taken s 3))"
  "4 \<le> pile s \<Longrightarrow> pile_move s (input_of take_four) = Inr (Some (take_four, taken s 4))"
  "5 \<le> pile s \<Longrightarrow> pile_move s (input_of take_five) = Inr (Some (take_five, taken s 5))"
  by (simp_all add: pile_move_def input_of_def take_defs)

lemma pile_undo_law: "undo_law pile_chess"
proof -
  have "\<exists>r s'. pile_move s (input_of m) = Inr (Some (r, s')) \<and> pile_undo s' = s"
    if "m \<in> set (pile_moves s)" for s m
    using pile_listed [OF that] pile_move_listed [of s] pile_undo_taken [of _ s]
    by (elim disjE conjE) simp_all
  then show ?thesis
    by (simp add: undo_law_def pile_chess_def)
qed

lemma pile_turn_law: "turn_law pile_chess"
proof -
  have "mover s' = (if mover s = W then B else W)"
    if "pile_move s i = Inr (Some (r, s'))" for s i r s'
    using that
    by (cases "mover s") (auto simp add: pile_move_def taken_def other_def split: if_splits)
  then show ?thesis
    by (simp add: turn_law_def pile_chess_def)
qed

lemma pile_fen_law: "fen_law pile_chess"
  by (simp add: fen_law_def pile_chess_def pile_fen_def pile_load_def pile_moves_def)

lemma pile_shape_law: "shape_law pile_chess"
  by (auto simp add: shape_law_def pile_chess_def pile_moves_def take_defs split: if_splits)

lemma flip_shuffle_law: "shuffle_law flip_rng"
  by (simp add: shuffle_law_def flip_rng_def)

lemma flip_random_law: "random_law flip_rng"
  by (simp add: random_law_def flip_rng_def)

section \<open>Seat assignment\<close>

text \<open>
  Claim C9. An identity that already occupies a seat is answered with \<open>ok\<close> and the color
  of a seat it occupies (White's seat is looked at first), and the room, with its seats, is
  left as it was. Nothing is asked of the mode: the lookup runs before the mode is read.
\<close>

theorem assignSeat_idempotent:
  "occupies (seats rm) c pid \<Longrightarrow>
   assignSeat rm pid =
     (\<lparr>seat_ok = True, seat_color = Some (if occupies (seats rm) W pid then W else B),
       seat_reason = None\<rparr>, rm)
   \<and> occupies (seats rm) (if occupies (seats rm) W pid then W else B) pid"
  by (cases c) (auto simp add: assignSeat_def)

theorem assignSeat_idempotent_witness:
  "occupies (seats (pile_room Duo Easy Lobby 3)) B ''2''
   \<and> assignSeat (pile_room Duo Easy Lobby 3) ''2''
       = (\<lparr>seat_ok = True, seat_color = Some B, seat_reason = None\<rparr>, pile_room Duo Easy Lobby 3)
   \<and> occupies (seats (pile_room Solo Easy Lobby 3)) W ''1''
   \<and> assignSeat (pile_room Solo Easy Lobby 3) ''1''
       = (\<lparr>seat_ok = True, seat_color = Some W, seat_reason = None\<rparr>, pile_room Solo Easy Lobby 3)"
proof -
  have d: "occupies (seats (pile_room Duo Easy Lobby 3)) B ''2''"
    by (simp add: occupies_def seat_at_def pile_room_def)
  have s: "occupies (seats (pile_room Solo Easy Lobby 3)) W ''1''"
    by (simp add: occupies_def seat_at_def pile_room_def)
  have nd: "\<not> occupies (seats (pile_room Duo Easy Lobby 3)) W ''2''"
    by (simp add: occupies_def seat_at_def pile_room_def)
  show ?thesis
    using d s nd assignSeat_idempotent [OF d] assignSeat_idempotent [OF s] by simp
qed

section \<open>A player leaves the world\<close>

text \<open>
  Claim C10. While the mode is duo and the status is playing, the handler of
  \<open>LEFT_WORLD\<close> ends the match with no winner and the end reason
  \<open>opponent disconnected\<close>, whoever the leaving player \<open>pid\<close> is: the handler never looks
  at the seats. In the concrete run the leaving player \<open>3\<close> holds no seat.
\<close>

theorem left_world_ends_duo_game:
  "mode (selection (room srv)) = Duo \<Longrightarrow> status (room srv) = Playing \<Longrightarrow>
   room (on_left_world C srv pid)
     = (room srv)\<lparr>status := Ended, winner := None, endReason := Some ''opponent disconnected''\<rparr>"
  by (simp add: on_left_world_def Let_def)

theorem left_world_ends_duo_game_witness:
  "mode (selection (pile_room Duo Easy Playing 3)) = Duo
   \<and> status (pile_room Duo Easy Playing 3) = Playing
   \<and> occupies (seats (pile_room Duo Easy Playing 3)) W ''1''
   \<and> occupies (seats (pile_room Duo Easy Playing 3)) B ''2''
   \<and> room (on_left_world pile_chess
        \<lparr>room = pile_room Duo Easy Playing 3, players = [''1'', ''2'', ''3''],
         colors = [''1'' \<mapsto> W, ''2'' \<mapsto> B]\<rparr> ''3'')
     = (pile_room Duo Easy Playing 3)\<lparr>status := Ended, winner := None,
          endReason := Some ''opponent disconnected''\<rparr>"
  using left_world_ends_duo_game [of "\<lparr>room = pile_room Duo Easy Playing 3, players = [''1'', ''2'', ''3''],
         colors = [''1'' \<mapsto> W, ''2'' \<mapsto> B]\<rparr>" pile_chess "''3''"]
  by (simp add: pile_room_def occupies_def seat_at_def)

section \<open>Finalizing a match\<close>

text \<open>
  Every operation that can lead to or stay in the status \<open>playing\<close> keeps the winner field
  empty there.
\<close>

lemma startGame_no_stale_winner: "no_stale_winner (startGame C rm)"
  by (simp add: no_stale_winner_def startGame_def)

lemma maybeFinalize_no_stale_winner:
  "no_stale_winner rm \<Longrightarrow> no_stale_winner (maybeFinalize C rm)"
  by (simp add: no_stale_winner_def maybeFinalize_def Let_def)

lemma no_stale_winner_moved [simp]:
  "no_stale_winner (rm\<lparr>chess := c, lastMove := l\<rparr>) = no_stale_winner rm"
  by (simp add: no_stale_winner_def)

lemma applyMove_no_stale_winner:
  assumes "no_stale_winner rm"
  shows "no_stale_winner (fst (snd (applyMove C R g rm pid uci)))"
proof -
  have step: "no_stale_winner (maybeFinalize C (r\<lparr>chess := c, lastMove := l\<rparr>))"
    if "no_stale_winner r" for r c l
    using that by (simp add: maybeFinalize_no_stale_winner)
  show ?thesis
    using assms step
    by (auto simp add: applyMove_def Let_def split: option.splits prod.splits sum.splits)
qed

lemma on_left_world_no_stale_winner:
  "no_stale_winner (room srv) \<Longrightarrow> no_stale_winner (room (on_left_world C srv pid))"
  by (simp add: no_stale_winner_def on_left_world_def resetToLobby_def Let_def)

lemma on_lobby_start_no_stale_winner:
  "no_stale_winner (room srv) \<Longrightarrow> no_stale_winner (room (on_lobby_start C srv pid))"
  by (simp add: on_lobby_start_def Let_def startGame_no_stale_winner)

text \<open>
  Claim C3. On a position the library reports as over, \<open>maybeFinalize\<close> sets the status to
  ended and classifies the outcome by the first test that holds, in the order checkmate,
  stalemate, insufficient material, threefold repetition, draw. Checkmate names the opponent
  of the side to move as winner. The drawing branches write the end reason only: the winner
  stays as it was, which is no winner whenever none was set, as is the case in a match that
  is being played (\<open>no_stale_winner\<close> above; \<open>applyMove\<close>, the only caller, runs it while
  the status is playing). On a position that is not over the room is returned as it is.
  Selection, seats, position and last move are never written.
\<close>

theorem maybeFinalize_priority:
  "(\<not> isGameOver C (chess rm) \<longrightarrow> maybeFinalize C rm = rm)
   \<and> (isGameOver C (chess rm) \<longrightarrow>
        status (maybeFinalize C rm) = Ended
        \<and> (isCheckmate C (chess rm) \<longrightarrow>
              winner (maybeFinalize C rm) = Some (if turn C (chess rm) = W then B else W)
              \<and> endReason (maybeFinalize C rm) = Some ''checkmate'')
        \<and> (\<not> isCheckmate C (chess rm) \<longrightarrow>
              winner (maybeFinalize C rm) = winner rm
              \<and> (winner rm = None \<longrightarrow> winner (maybeFinalize C rm) = None))
        \<and> (\<not> isCheckmate C (chess rm) \<and> isStalemate C (chess rm) \<longrightarrow>
              endReason (maybeFinalize C rm) = Some ''stalemate'')
        \<and> (\<not> isCheckmate C (chess rm) \<and> \<not> isStalemate C (chess rm)
            \<and> isInsufficientMaterial C (chess rm) \<longrightarrow>
              endReason (maybeFinalize C rm) = Some ''insufficient material'')
        \<and> (\<not> isCheckmate C (chess rm) \<and> \<not> isStalemate C (chess rm)
            \<and> \<not> isInsufficientMaterial C (chess rm) \<and> isThreefoldRepetition C (chess rm) \<longrightarrow>
              endReason (maybeFinalize C rm) = Some ''threefold repetition'')
        \<and> (\<not> isCheckmate C (chess rm) \<and> \<not> isStalemate C (chess rm)
            \<and> \<not> isInsufficientMaterial C (chess rm) \<and> \<not> isThreefoldRepetition C (chess rm)
            \<and> isDraw C (chess rm) \<longrightarrow>
              endReason (maybeFinalize C rm) = Some ''draw'')
        \<and> selection (maybeFinalize C rm) = selection rm
        \<and> seats (maybeFinalize C rm) = seats rm
        \<and> chess (maybeFinalize C rm) = chess rm
        \<and> lastMove (maybeFinalize C rm) = lastMove rm)"
  by (simp add: maybeFinalize_def Let_def)

theorem maybeFinalize_priority_witness:
  "isGameOver pile_chess (chess (pile_room Duo Easy Playing 0))
   \<and> isCheckmate pile_chess (chess (pile_room Duo Easy Playing 0))
   \<and> maybeFinalize pile_chess (pile_room Duo Easy Playing 0)
       = (pile_room Duo Easy Playing 0)\<lparr>status := Ended, winner := Some B,
            endReason := Some ''checkmate''\<rparr>
   \<and> \<not> isGameOver pile_chess (chess (pile_room Duo Easy Playing 3))
   \<and> maybeFinalize pile_chess (pile_room Duo Easy Playing 3) = pile_room Duo Easy Playing 3
   \<and> isGameOver pile_chess \<lparr>pile = 1, mover = W, hist = [1, 1, 1, 1, 1, 1]\<rparr>
   \<and> \<not> isCheckmate pile_chess \<lparr>pile = 1, mover = W, hist = [1, 1, 1, 1, 1, 1]\<rparr>
   \<and> isDraw pile_chess \<lparr>pile = 1, mover = W, hist = [1, 1, 1, 1, 1, 1]\<rparr>
   \<and> status (maybeFinalize pile_chess
        ((pile_room Duo Easy Playing 3)\<lparr>chess := \<lparr>pile = 1, mover = W, hist = [1, 1, 1, 1, 1, 1]\<rparr>\<rparr>))
       = Ended
   \<and> winner (maybeFinalize pile_chess
        ((pile_room Duo Easy Playing 3)\<lparr>chess := \<lparr>pile = 1, mover = W, hist = [1, 1, 1, 1, 1, 1]\<rparr>\<rparr>))
       = None
   \<and> endReason (maybeFinalize pile_chess
        ((pile_room Duo Easy Playing 3)\<lparr>chess := \<lparr>pile = 1, mover = W, hist = [1, 1, 1, 1, 1, 1]\<rparr>\<rparr>))
       = Some ''draw''"
  using maybeFinalize_priority [of pile_chess "pile_room Duo Easy Playing 0"]
    maybeFinalize_priority [of pile_chess "pile_room Duo Easy Playing 3"]
    maybeFinalize_priority [of pile_chess
      "(pile_room Duo Easy Playing 3)\<lparr>chess := \<lparr>pile = 1, mover = W, hist = [1, 1, 1, 1, 1, 1]\<rparr>\<rparr>"]
  by (simp add: pile_room_def pile_chess_def maybeFinalize_def)

section \<open>Rejected moves\<close>

text \<open>
  Before its first write to the room, \<open>applyMove\<close> answers \<open>ok = false\<close> where the status
  is not playing, where the seat of the side to move is empty or held by another identity,
  and where \<open>room.chess.move\<close> returns a falsy value; the room and the generator stay as
  they were. The strings of the code are capitalised.
\<close>

lemma applyMove_refusals:
  "(status rm \<noteq> Playing \<longrightarrow>
      applyMove C R g rm pid uci = (Inr \<lparr>ok = False, reason = Some ''Not playing''\<rparr>, rm, g))
   \<and> (status rm = Playing \<and> \<not> occupies (seats rm) (turn C (chess rm)) pid \<longrightarrow>
      applyMove C R g rm pid uci = (Inr \<lparr>ok = False, reason = Some ''Not your turn''\<rparr>, rm, g))
   \<and> (status rm = Playing \<and> occupies (seats rm) (turn C (chess rm)) pid
       \<and> move C (chess rm) (parse_uci uci) = Inr None \<longrightarrow>
      applyMove C R g rm pid uci = (Inr \<lparr>ok = False, reason = Some ''Illegal move''\<rparr>, rm, g))"
  by (simp add: applyMove_def)

lemma applyMove_not_ok:
  assumes "applyMove C R g rm pid uci = (Inr res, rm', g')" "\<not> ok res"
  shows "rm' = rm \<and> g' = g
         \<and> (reason res = Some ''Illegal move'' \<longrightarrow> move C (chess rm) (parse_uci uci) = Inr None)"
  using assms
  by (auto simp add: applyMove_def Let_def split: option.splits prod.splits sum.splits if_splits)

text \<open>
  Claim C1 fails on its third case. Where the library rejects the move by throwing, as
  chess.js does from version 1.0 on, the exception leaves \<open>applyMove\<close>, which has no
  \<open>try\<close>: the call does not return \<open>ok = false\<close> with the reason \<open>Illegal move\<close>, it does
  not return at all (the room is still as it was). With a library that never returns a
  falsy value no call of \<open>applyMove\<close> returns that reason.
\<close>

theorem applyMove_rejected_move_throws:
  "(status rm = Playing \<and> occupies (seats rm) (turn C (chess rm)) pid
    \<and> move C (chess rm) (parse_uci uci) = Inl e \<longrightarrow>
      applyMove C R g rm pid uci = (Inl e, rm, g))
   \<and> ((\<forall>s i. move C s i \<noteq> Inr None) \<longrightarrow>
      (\<forall>res rm' g'. applyMove C R g rm pid uci = (Inr res, rm', g') \<longrightarrow>
         reason res \<noteq> Some ''Illegal move''))"
proof (intro conjI impI allI)
  assume "status rm = Playing \<and> occupies (seats rm) (turn C (chess rm)) pid
    \<and> move C (chess rm) (parse_uci uci) = Inl e"
  then show "applyMove C R g rm pid uci = (Inl e, rm, g)"
    by (simp add: applyMove_def)
next
  fix res rm' g'
  assume lib: "\<forall>s i. move C s i \<noteq> Inr None"
    and res: "applyMove C R g rm pid uci = (Inr res, rm', g')"
  show "reason res \<noteq> Some ''Illegal move''"
  proof (cases "ok res")
    case True
    then show ?thesis
      using res
      by (auto simp add: applyMove_def Let_def
          split: option.splits prod.splits sum.splits if_splits)
  next
    case False
    then show ?thesis
      using applyMove_not_ok [OF res] lib by blast
  qed
qed

theorem applyMove_rejected_move_throws_witness:
  "status (pile_room Solo Hard Playing 3) = Playing
   \<and> occupies (seats (pile_room Solo Hard Playing 3))
         (turn pile_chess (chess (pile_room Solo Hard Playing 3))) ''1''
   \<and> move pile_chess (chess (pile_room Solo Hard Playing 3)) (parse_uci ''a1a9'')
       = Inl (Error ''Invalid move'')
   \<and> applyMove pile_chess flip_rng (0::nat) (pile_room Solo Hard Playing 3) ''1'' ''a1a9''
       = (Inl (Error ''Invalid move''), pile_room Solo Hard Playing 3, 0)
   \<and> (\<forall>s i. move pile_chess s i \<noteq> Inr None)"
proof -
  have c: "status (pile_room Solo Hard Playing 3) = Playing
      \<and> occupies (seats (pile_room Solo Hard Playing 3))
            (turn pile_chess (chess (pile_room Solo Hard Playing 3))) ''1''
      \<and> move pile_chess (chess (pile_room Solo Hard Playing 3)) (parse_uci ''a1a9'')
          = Inl (Error ''Invalid move'')"
    by (simp add: pile_room_def pile_chess_def occupies_def seat_at_def pile_move_def
        parse_uci_def input_of_def take_defs)
  have lib: "\<forall>s i. move pile_chess s i \<noteq> Inr None"
    by (simp add: pile_chess_def pile_move_def)
  note r = applyMove_rejected_move_throws [where rm = "pile_room Solo Hard Playing 3"
      and C = pile_chess and R = flip_rng and g = 0 and pid = "''1''" and uci = "''a1a9''"
      and e = "Error ''Invalid move''", THEN conjunct1, THEN mp, OF c]
  show ?thesis
    by (intro conjI c [THEN conjunct1] c [THEN conjunct2, THEN conjunct1]
        c [THEN conjunct2, THEN conjunct2] r lib)
qed

section \<open>Starting a game\<close>









section \<open>Rounding to the nearest double\<close>

lemma round_even_error: "\<bar>of_int (round_even q) - q\<bar> \<le> 1 / 2"
proof -
  have "of_int \<lfloor>q\<rfloor> \<le> q" "q < of_int \<lfloor>q\<rfloor> + 1"
    by linarith+
  then show ?thesis
    by (auto simp add: round_even_def Let_def)
qed

lemma round_even_nonneg: "0 \<le> q \<Longrightarrow> 0 \<le> round_even q"
  by (auto simp add: round_even_def Let_def)

lemma to_double_error: "\<bar>to_double x - x\<bar> \<le> \<bar>x\<bar> / 2 ^ 53"
proof (cases "x = 0")
  case True
  then show ?thesis by (simp add: to_double_def)
next
  case False
  define e where "e = \<lfloor>log 2 \<bar>x\<bar>\<rfloor>"
  define ulp :: real where "ulp = 2 powr (of_int e - 52)"
  have ulp: "0 < ulp"
    by (simp add: ulp_def)
  have val: "to_double x = of_int (round_even (x / ulp)) * ulp"
    using False by (simp add: to_double_def e_def ulp_def Let_def)
  have "\<bar>to_double x - x\<bar> = \<bar>of_int (round_even (x / ulp)) - x / ulp\<bar> * ulp"
  proof -
    have "to_double x - x = (of_int (round_even (x / ulp)) - x / ulp) * ulp"
      using ulp by (simp add: val field_simps)
    then show ?thesis
      using ulp by (simp add: abs_mult)
  qed
  also have "\<dots> \<le> 1 / 2 * ulp"
    using round_even_error [of "x / ulp"] ulp by (intro mult_right_mono) simp_all
  also have "\<dots> = 2 powr of_int e / 2 ^ 53"
  proof -
    have "ulp = 2 powr of_int e / 2 powr 52"
      by (simp add: ulp_def powr_diff)
    then show ?thesis
      by simp
  qed
  also have "\<dots> \<le> \<bar>x\<bar> / 2 ^ 53"
  proof -
    have "of_int e \<le> log 2 \<bar>x\<bar>"
      by (simp add: e_def)
    then have "2 powr of_int e \<le> 2 powr log 2 \<bar>x\<bar>"
      by (intro powr_mono) simp_all
    also have "\<dots> = \<bar>x\<bar>"
      using False by simp
    finally show ?thesis
      by (simp add: divide_right_mono)
  qed
  finally show ?thesis .
qed

lemma to_double_between:
  assumes "0 \<le> x"
  shows "x * (1 - 1 / 2 ^ 53) \<le> to_double x \<and> to_double x \<le> x * (1 + 1 / 2 ^ 53)"
proof -
  define eps :: real where "eps = 1 / 2 ^ 53"
  have "\<bar>to_double x - x\<bar> \<le> x * eps"
    using to_double_error [of x] assms by (simp add: eps_def)
  then have "x - x * eps \<le> to_double x" "to_double x \<le> x + x * eps"
    by linarith+
  then have "x * (1 - eps) \<le> to_double x \<and> to_double x \<le> x * (1 + eps)"
    by (simp add: algebra_simps)
  then show ?thesis
    by (simp only: eps_def)
qed

lemma to_double_nonneg: "0 \<le> x \<Longrightarrow> 0 \<le> to_double x"
  by (simp add: to_double_def Let_def round_even_nonneg)

lemma to_double_below:
  assumes "0 \<le> u" "u \<le> 1 - 1 / 2 ^ 53" "0 < n"
  shows "to_double (u * real n) < real n"
proof -
  let ?x = "u * real n"
  have x: "0 \<le> ?x"
    using assms by simp
  have "to_double ?x \<le> ?x * (1 + 1 / 2 ^ 53)"
    using to_double_between [OF x] by blast
  also have "\<dots> = u * (1 + 1 / 2 ^ 53) * real n"
    by (simp only: mult.assoc mult.commute mult.left_commute)
  also have "\<dots> \<le> (1 - 1 / 2 ^ 53) * (1 + 1 / 2 ^ 53) * real n"
    using assms by (intro mult_right_mono) simp_all
  also have "\<dots> < 1 * real n"
    using assms(3) by (intro mult_strict_right_mono) simp_all
  finally show ?thesis
    by simp
qed

lemma pick_index:
  assumes "0 \<le> u" "u \<le> 1 - 1 / 2 ^ 53" "0 < n"
  shows "0 \<le> \<lfloor>to_double (u * real n)\<rfloor> \<and> nat \<lfloor>to_double (u * real n)\<rfloor> < n"
proof -
  have "0 \<le> to_double (u * real n)"
    using assms by (intro to_double_nonneg) simp
  then have lo: "0 \<le> \<lfloor>to_double (u * real n)\<rfloor>"
    by simp
  have "\<lfloor>to_double (u * real n)\<rfloor> < int n"
    using to_double_below [OF assms] by (simp add: floor_less_iff)
  then have "nat \<lfloor>to_double (u * real n)\<rfloor> < n"
    using lo by (simp only: nat_less_iff)
  then show ?thesis
    using lo by blast
qed






section \<open>Order facts about scores and windows\<close>

lemma score_le_simps [simp]:
  "NegInf \<le> x" "x \<le> PosInf" "(Fin i \<le> Fin j) = (i \<le> j)"
  "(x \<le> NegInf) = (x = NegInf)" "(PosInf \<le> x) = (x = PosInf)"
  by (cases x; simp add: less_eq_score_def)+

lemma score_less_simps [simp]:
  "(Fin i < Fin j) = (i < j)" "NegInf < Fin i" "Fin i < PosInf" "NegInf < PosInf"
  "\<not> x < NegInf" "\<not> PosInf < x"
  by (cases x; auto simp add: less_score_def)+

lemma fold_max_acc: "fold max xs (max a b) = max a (fold max xs (b::score))"
proof (induction xs arbitrary: b)
  case Nil
  show ?case by simp
next
  case (Cons x xs)
  have "max x (max a b) = max a (max x b)"
    by (rule max.left_commute)
  then show ?case
    using Cons.IH [of "max x b"] by simp
qed

lemma fold_min_acc: "fold min xs (min a b) = min a (fold min xs (b::score))"
proof (induction xs arbitrary: b)
  case Nil
  show ?case by simp
next
  case (Cons x xs)
  have "min x (min a b) = min a (min x b)"
    by (rule min.left_commute)
  then show ?case
    using Cons.IH [of "min x b"] by simp
qed

lemma fold_max_bot: "fold max xs x = max x (fold max xs NegInf)"
  using fold_max_acc [of xs x NegInf] by (simp add: max_def)

lemma fold_min_top: "fold min xs x = min x (fold min xs PosInf)"
  using fold_min_acc [of xs x PosInf] by (simp add: min_def)

lemma fold_max_perm: "mset xs = mset ys \<Longrightarrow> fold max xs b = fold max ys (b::score)"
  by (rule fold_multiset_equiv [THEN fun_cong]) (auto simp add: max.left_commute)

lemma fold_min_perm: "mset xs = mset ys \<Longrightarrow> fold min xs b = fold min ys (b::score)"
  by (rule fold_multiset_equiv [THEN fun_cong]) (auto simp add: min.left_commute)

lemma window_sound_iff: "a < b \<Longrightarrow> window_sound a b v r = ((a < r \<longrightarrow> r \<le> v) \<and> (r < b \<longrightarrow> v \<le> r))"
  unfolding window_sound_def by auto

lemma order_core_max:
  fixes a b best v1 r1 r M :: "'a::linorder"
  assumes "a < b" "best \<le> a" "r1 < b" 
    and 1: "a < r1 \<longrightarrow> r1 \<le> v1" and 2: "v1 \<le> r1"
    and 3: "a < r \<and> best < r \<and> r1 < r \<longrightarrow> r \<le> best \<or> r \<le> r1 \<or> r \<le> M"
    and 4: "r < b \<longrightarrow> best \<le> r \<and> r1 \<le> r \<and> M \<le> r"
  shows "(a < r \<longrightarrow> r \<le> best \<or> r \<le> v1 \<or> r \<le> M) \<and> (r < b \<longrightarrow> best \<le> r \<and> v1 \<le> r \<and> M \<le> r)"
  using assms by auto

lemma order_core_min:
  fixes a b best v1 r1 r M :: "'a::linorder"
  assumes "a < b" "b \<le> best" "a < r1" 
    and 1: "r1 < b \<longrightarrow> v1 \<le> r1" and 2: "r1 \<le> v1"
    and 3: "r < b \<and> r < best \<and> r < r1 \<longrightarrow> best \<le> r \<or> r1 \<le> r \<or> M \<le> r"
    and 4: "a < r \<longrightarrow> r \<le> best \<and> r \<le> r1 \<and> r \<le> M"
  shows "(a < r \<longrightarrow> r \<le> best \<and> r \<le> v1 \<and> r \<le> M) \<and> (r < b \<longrightarrow> best \<le> r \<or> v1 \<le> r \<or> M \<le> r)"
  using assms by auto

lemma window_sound_max_step:
  fixes a b best v1 r1 r M :: "'a::linorder"
  assumes ab: "a < b" and ba: "best \<le> a" and w1: "window_sound a b v1 r1"
    and nb: "\<not> b \<le> max a (max best r1)"
    and ih: "window_sound (max a (max best r1)) b (max (max best r1) M) r"
  shows "window_sound a b (max (max best v1) M) r"
proof -
  have ab': "max a (max best r1) < b"
    using nb by (simp only: not_le)
  have r1b: "r1 < b"
    using ab' by (simp only: max_less_iff_conj)
  have 1: "a < r1 \<longrightarrow> r1 \<le> v1" and 2: "r1 < b \<longrightarrow> v1 \<le> r1"
    using w1 unfolding window_sound_iff [OF ab] by blast+
  have 3: "a < r \<and> best < r \<and> r1 < r \<longrightarrow> r \<le> best \<or> r \<le> r1 \<or> r \<le> M"
    and 4: "r < b \<longrightarrow> best \<le> r \<and> r1 \<le> r \<and> M \<le> r"
    using ih unfolding window_sound_iff [OF ab'] max_less_iff_conj le_max_iff_disj max.bounded_iff conj_assoc disj_assoc by blast+
  have "(a < r \<longrightarrow> r \<le> best \<or> r \<le> v1 \<or> r \<le> M) \<and> (r < b \<longrightarrow> best \<le> r \<and> v1 \<le> r \<and> M \<le> r)"
    using ab ba r1b 1 2 [rule_format, OF r1b] 3 4 by (rule order_core_max)
  then show ?thesis
    by (simp only: window_sound_iff [OF ab] max_less_iff_conj le_max_iff_disj max.bounded_iff conj_assoc disj_assoc)
qed

lemma window_sound_max_break:
  fixes a b best v1 r1 M :: "'a::linorder"
  assumes ab: "a < b" and ba: "best \<le> a" and w1: "window_sound a b v1 r1"
    and brk: "b \<le> max a (max best r1)"
  shows "window_sound a b (max (max best v1) M) (max best r1)"
proof -
  have 1: "a < r1 \<longrightarrow> r1 \<le> v1"
    using w1 unfolding window_sound_iff [OF ab] by blast
  have "b \<le> a \<or> b \<le> best \<or> b \<le> r1"
    using brk by (simp only: le_max_iff_disj)
  then have br: "b \<le> r1"
    using ab ba by auto
  then have "r1 \<le> v1" "best \<le> r1"
    using 1 ab ba by auto
  then have e: "max best r1 = r1" and le: "r1 \<le> max (max best v1) M"
    by (auto simp add: max_def)
  show ?thesis
    unfolding window_sound_iff [OF ab] e using le br by auto
qed

lemma window_sound_min_step:
  fixes a b best v1 r1 r M :: "'a::linorder"
  assumes ab: "a < b" and ba: "b \<le> best" and w1: "window_sound a b v1 r1"
    and nb: "\<not> min b (min best r1) \<le> a"
    and ih: "window_sound a (min b (min best r1)) (min (min best r1) M) r"
  shows "window_sound a b (min (min best v1) M) r"
proof -
  have ab': "a < min b (min best r1)"
    using nb by (simp only: not_le)
  have r1a: "a < r1"
    using ab' by (simp only: min_less_iff_conj)
  have 1: "a < r1 \<longrightarrow> r1 \<le> v1" and 2: "r1 < b \<longrightarrow> v1 \<le> r1"
    using w1 unfolding window_sound_iff [OF ab] by blast+
  have 4: "a < r \<longrightarrow> r \<le> best \<and> r \<le> r1 \<and> r \<le> M"
    and 3: "r < b \<and> r < best \<and> r < r1 \<longrightarrow> best \<le> r \<or> r1 \<le> r \<or> M \<le> r"
    using ih unfolding window_sound_iff [OF ab'] min_less_iff_conj min_le_iff_disj min.bounded_iff conj_assoc disj_assoc by blast+
  have "(a < r \<longrightarrow> r \<le> best \<and> r \<le> v1 \<and> r \<le> M) \<and> (r < b \<longrightarrow> best \<le> r \<or> v1 \<le> r \<or> M \<le> r)"
    using ab ba r1a 2 1 [rule_format, OF r1a] 3 4 by (rule order_core_min)
  then show ?thesis
    by (simp only: window_sound_iff [OF ab] min_less_iff_conj min_le_iff_disj min.bounded_iff conj_assoc disj_assoc)
qed

lemma window_sound_min_break:
  fixes a b best v1 r1 M :: "'a::linorder"
  assumes ab: "a < b" and ba: "b \<le> best" and w1: "window_sound a b v1 r1"
    and brk: "min b (min best r1) \<le> a"
  shows "window_sound a b (min (min best v1) M) (min best r1)"
proof -
  have 2: "r1 < b \<longrightarrow> v1 \<le> r1"
    using w1 unfolding window_sound_iff [OF ab] by blast
  have "b \<le> a \<or> best \<le> a \<or> r1 \<le> a"
    using brk by (simp only: min_le_iff_disj)
  then have br: "r1 \<le> a"
    using ab ba by auto
  then have "v1 \<le> r1" "r1 \<le> best"
    using 2 ab ba by auto
  then have e: "min best r1 = r1" and le: "min (min best v1) M \<le> r1"
    by (auto simp add: min_def)
  show ?thesis
    unfolding window_sound_iff [OF ab] e using le br by auto
qed

lemma window_sound_full: "window_sound NegInf PosInf v r \<Longrightarrow> r = v"
  by (cases r; cases v) (auto simp add: window_sound_def)

section \<open>The search gives the position back\<close>

lemma position_after_undo:
  assumes "undo_law C" and "m \<in> set (moves C s)"
  shows "\<exists>r. move C s (input_of m) = Inr (Some (r, position_after C s m))
             \<and> undo C (position_after C s m) = s"
proof -
  obtain r s' where "move C s (input_of m) = Inr (Some (r, s'))" and "undo C s' = s"
    using assms unfolding undo_law_def by blast
  then show ?thesis
    by (simp add: position_after_def)
qed

lemma shuffle_set:
  "shuffle_law R \<Longrightarrow> sort_shuffle R g xs = (ms, g1) \<Longrightarrow> mset ms = mset xs"
  unfolding shuffle_law_def by (metis fst_conv)

text \<open>One turn of the loop on a listed move whose recursive call returns.\<close>

lemma search_step:
  assumes "undo_law C" and "m \<in> set (moves C s)"
    and "rec g (position_after C s m) a b = (Inr (sc, mv), g1, position_after C s m)"
  shows "search_loop rec C isMax (m # ms) g s a b best bm =
     (if isMax then
        (if b \<le> max a (max best sc)
         then (Inr (max best sc, if best < sc then Some (uci_of m) else bm), g1, s)
         else search_loop rec C isMax ms g1 s (max a (max best sc)) b (max best sc)
                (if best < sc then Some (uci_of m) else bm))
      else
        (if min b (min best sc) \<le> a
         then (Inr (min best sc, if sc < best then Some (uci_of m) else bm), g1, s)
         else search_loop rec C isMax ms g1 s a (min b (min best sc)) (min best sc)
                (if sc < best then Some (uci_of m) else bm)))"
proof -
  obtain r where mv: "move C s (input_of m) = Inr (Some (r, position_after C s m))"
    and un: "undo C (position_after C s m) = s"
    using position_after_undo [OF assms(1,2)] by blast
  have mx: "(if best < sc then sc else best) = max best sc"
    using less_le_not_le [of best sc] by (auto simp add: max_def)
  have mn: "(if sc < best then sc else best) = min best sc"
    using less_le_not_le [of sc best] linear [of sc best] by (auto simp add: min_def)
  show ?thesis
    using mv un assms(3) by (simp add: Let_def mx mn)
qed

lemma search_loop_ok:
  assumes law: "undo_law C"
    and rec_ok: "\<And>g s a b. \<exists>sc mv g1. rec g s a b = (Inr (sc, mv), g1, s)"
  shows "set ms \<subseteq> set (moves C s) \<Longrightarrow>
         \<exists>sc mv g1. search_loop rec C isMax ms g s a b best bm = (Inr (sc, mv), g1, s)"
proof (induction ms arbitrary: g a b best bm)
  case Nil
  show ?case by simp
next
  case (Cons m ms)
  have m: "m \<in> set (moves C s)" and rest: "set ms \<subseteq> set (moves C s)"
    using Cons.prems by simp_all
  obtain sc mv g1 where r: "rec g (position_after C s m) a b = (Inr (sc, mv), g1, position_after C s m)"
    using rec_ok by blast
  show ?case
    unfolding search_step [where rec = rec, OF law m r] using Cons.IH [OF rest]
    by (cases isMax) simp_all
qed

lemma minimax_ok:
  assumes "undo_law C" and "shuffle_law R"
  shows "\<exists>sc mv g1. minimax C R d col g s a b = (Inr (sc, mv), g1, s)"
proof (induction d arbitrary: g s a b)
  case 0
  show ?case by simp
next
  case (Suc d)
  show ?case
  proof (cases "isGameOver C s")
    case True
    then show ?thesis by simp
  next
    case False
    obtain ms g1 where sh: "sort_shuffle R g (moves C s) = (ms, g1)"
      by (metis prod.collapse)
    have sub: "set ms \<subseteq> set (moves C s)"
      using shuffle_set [OF assms(2) sh] by (metis mset_eq_setD order_refl)
    show ?thesis
      using False sh search_loop_ok [of C "minimax C R d col", OF assms(1) Suc.IH sub]
      by (simp add: Let_def)
  qed
qed

section \<open>Alpha-beta against plain minimax\<close>

lemma search_loop_max_sound:
  assumes law: "undo_law C"
    and rec_ok: "\<And>g s a b. \<exists>sc mv g1. rec g s a b = (Inr (sc, mv), g1, s)"
    and sound: "\<And>g m a b sc mv g1 s1. m \<in> set (moves C s) \<Longrightarrow> a < b \<Longrightarrow>
        rec g (position_after C s m) a b = (Inr (sc, mv), g1, s1) \<Longrightarrow>
        window_sound a b (V (position_after C s m)) sc"
  shows "set ms \<subseteq> set (moves C s) \<Longrightarrow> a < b \<Longrightarrow> best \<le> a \<Longrightarrow>
         search_loop rec C True ms g s a b best bm = (Inr (r, bm'), g', s') \<Longrightarrow>
         window_sound a b (fold max (map (\<lambda>m. V (position_after C s m)) ms) best) r"
proof (induction ms arbitrary: g a best bm)
  case Nil
  then show ?case by (simp add: window_sound_def)
next
  case (Cons m ms)
  have m: "m \<in> set (moves C s)" and rest: "set ms \<subseteq> set (moves C s)"
    using Cons.prems(1) by simp_all
  obtain sc mv g1 where r0: "rec g (position_after C s m) a b = (Inr (sc, mv), g1, position_after C s m)"
    using rec_ok by blast
  have w1: "window_sound a b (V (position_after C s m)) sc"
    using sound [OF m Cons.prems(2) r0] .
  note step = search_step [where rec = rec and isMax = True and ms = ms and best = best
      and bm = bm, OF law m r0]
  let ?M = "fold max (map (\<lambda>m. V (position_after C s m)) ms) NegInf"
  have goal_val: "fold max (map (\<lambda>m. V (position_after C s m)) (m # ms)) best
      = max (max best (V (position_after C s m))) ?M"
    using fold_max_bot [of "map (\<lambda>m. V (position_after C s m)) ms"
        "max (V (position_after C s m)) best"]
    by (simp add: max.commute)
  show ?case
  proof (cases "b \<le> max a (max best sc)")
    case True
    have "r = max best sc"
      using Cons.prems(4) True unfolding step by simp
    then show ?thesis
      using window_sound_max_break [OF Cons.prems(2,3) w1 True, of ?M] goal_val by simp
  next
    case False
    let ?bm = "if best < sc then Some (uci_of m) else bm"
    have run: "search_loop rec C True ms g1 s (max a (max best sc)) b (max best sc) ?bm
        = (Inr (r, bm'), g', s')"
      using Cons.prems(4) False unfolding step by simp
    have "window_sound (max a (max best sc)) b
            (fold max (map (\<lambda>m. V (position_after C s m)) ms) (max best sc)) r"
    proof (rule Cons.IH [OF rest _ _ run])
      show "max a (max best sc) < b"
        using False by (simp only: not_le)
      show "max best sc \<le> max a (max best sc)"
        by (rule max.cobounded2)
    qed
    then have ih: "window_sound (max a (max best sc)) b (max (max best sc) ?M) r"
      using fold_max_bot [of "map (\<lambda>m. V (position_after C s m)) ms" "max best sc"] by simp
    show ?thesis
      using window_sound_max_step [OF Cons.prems(2,3) w1 False ih] goal_val by simp
  qed
qed

lemma search_loop_min_sound:
  assumes law: "undo_law C"
    and rec_ok: "\<And>g s a b. \<exists>sc mv g1. rec g s a b = (Inr (sc, mv), g1, s)"
    and sound: "\<And>g m a b sc mv g1 s1. m \<in> set (moves C s) \<Longrightarrow> a < b \<Longrightarrow>
        rec g (position_after C s m) a b = (Inr (sc, mv), g1, s1) \<Longrightarrow>
        window_sound a b (V (position_after C s m)) sc"
  shows "set ms \<subseteq> set (moves C s) \<Longrightarrow> a < b \<Longrightarrow> b \<le> best \<Longrightarrow>
         search_loop rec C False ms g s a b best bm = (Inr (r, bm'), g', s') \<Longrightarrow>
         window_sound a b (fold min (map (\<lambda>m. V (position_after C s m)) ms) best) r"
proof (induction ms arbitrary: g b best bm)
  case Nil
  then show ?case by (simp add: window_sound_def)
next
  case (Cons m ms)
  have m: "m \<in> set (moves C s)" and rest: "set ms \<subseteq> set (moves C s)"
    using Cons.prems(1) by simp_all
  obtain sc mv g1 where r0: "rec g (position_after C s m) a b = (Inr (sc, mv), g1, position_after C s m)"
    using rec_ok by blast
  have w1: "window_sound a b (V (position_after C s m)) sc"
    using sound [OF m Cons.prems(2) r0] .
  note step = search_step [where rec = rec and isMax = False and ms = ms and best = best
      and bm = bm, OF law m r0]
  let ?M = "fold min (map (\<lambda>m. V (position_after C s m)) ms) PosInf"
  have goal_val: "fold min (map (\<lambda>m. V (position_after C s m)) (m # ms)) best
      = min (min best (V (position_after C s m))) ?M"
    using fold_min_top [of "map (\<lambda>m. V (position_after C s m)) ms"
        "min (V (position_after C s m)) best"]
    by (simp add: min.commute)
  show ?case
  proof (cases "min b (min best sc) \<le> a")
    case True
    have "r = min best sc"
      using Cons.prems(4) True unfolding step by simp
    then show ?thesis
      using window_sound_min_break [OF Cons.prems(2,3) w1 True, of ?M] goal_val by simp
  next
    case False
    let ?bm = "if sc < best then Some (uci_of m) else bm"
    have run: "search_loop rec C False ms g1 s a (min b (min best sc)) (min best sc) ?bm
        = (Inr (r, bm'), g', s')"
      using Cons.prems(4) False unfolding step by simp
    have "window_sound a (min b (min best sc))
            (fold min (map (\<lambda>m. V (position_after C s m)) ms) (min best sc)) r"
    proof (rule Cons.IH [OF rest _ _ run])
      show "a < min b (min best sc)"
        using False by (simp only: not_le)
      show "min b (min best sc) \<le> min best sc"
        by (rule min.cobounded2)
    qed
    then have ih: "window_sound a (min b (min best sc)) (min (min best sc) ?M) r"
      using fold_min_top [of "map (\<lambda>m. V (position_after C s m)) ms" "min best sc"] by simp
    show ?thesis
      using window_sound_min_step [OF Cons.prems(2,3) w1 False ih] goal_val by simp
  qed
qed

lemma minimax_sound:
  assumes law: "undo_law C" and sh: "shuffle_law R"
  shows "a < b \<Longrightarrow> minimax C R d col g s a b = (Inr (r, mv), g', s') \<Longrightarrow>
         window_sound a b (plain_minimax C col d s) r"
proof (induction d arbitrary: g s a b r mv g' s')
  case 0
  then show ?case by (auto simp add: window_sound_def)
next
  case (Suc d)
  show ?case
  proof (cases "isGameOver C s")
    case True
    then show ?thesis using Suc.prems by (auto simp add: window_sound_def)
  next
    case False
    obtain ms g1 where shf: "sort_shuffle R g (moves C s) = (ms, g1)"
      by (metis prod.collapse)
    have perm: "mset ms = mset (moves C s)"
      by (rule shuffle_set [OF sh shf])
    then have sub: "set ms \<subseteq> set (moves C s)"
      by (metis mset_eq_setD order_refl)
    let ?f = "\<lambda>m. plain_minimax C col d (position_after C s m)"
    have pm: "mset (map ?f ms) = mset (map ?f (moves C s))"
      using perm by (metis mset_map)
    show ?thesis
    proof (cases "turn C s = col")
      case True
      have run: "search_loop (minimax C R d col) C True ms g1 s a b NegInf None = (Inr (r, mv), g', s')"
        using Suc.prems(2) False True shf by (simp add: Let_def)
      have "window_sound a b (fold max (map ?f ms) NegInf) r"
        by (rule search_loop_max_sound [where rec = "minimax C R d col" and V = "plain_minimax C col d",
              OF law minimax_ok [OF law sh] Suc.IH sub Suc.prems(1) _ run]) simp_all
      then show ?thesis
        using False True fold_max_perm [OF pm, of NegInf] by simp
    next
      case nomax: False
      have run: "search_loop (minimax C R d col) C False ms g1 s a b PosInf None = (Inr (r, mv), g', s')"
        using Suc.prems(2) False nomax shf by (simp add: Let_def)
      have "window_sound a b (fold min (map ?f ms) PosInf) r"
        by (rule search_loop_min_sound [where rec = "minimax C R d col" and V = "plain_minimax C col d",
              OF law minimax_ok [OF law sh] Suc.IH sub Suc.prems(1) _ run]) simp_all
      then show ?thesis
        using False nomax fold_min_perm [OF pm, of PosInf] by simp
    qed
  qed
qed

lemma root_max_exact:
  assumes law: "undo_law C"
    and rec_ok: "\<And>g s a b. \<exists>sc mv g1. rec g s a b = (Inr (sc, mv), g1, s)"
    and sound: "\<And>g m a b sc mv g1 s1. m \<in> set (moves C s) \<Longrightarrow> a < b \<Longrightarrow>
        rec g (position_after C s m) a b = (Inr (sc, mv), g1, s1) \<Longrightarrow>
        window_sound a b (V (position_after C s m)) sc"
  shows "set ms \<subseteq> set (moves C s) \<Longrightarrow> best < PosInf \<Longrightarrow>
         root_inv (set (moves C s)) (\<lambda>m. V (position_after C s m)) NegInf best bm \<Longrightarrow>
         search_loop rec C True ms g s best PosInf best bm = (Inr (r, bm'), g', s') \<Longrightarrow>
         root_inv (set (moves C s)) (\<lambda>m. V (position_after C s m)) NegInf r bm'"
proof (induction ms arbitrary: g best bm)
  case Nil
  then show ?case by simp
next
  case (Cons m ms)
  have m: "m \<in> set (moves C s)" and rest: "set ms \<subseteq> set (moves C s)"
    using Cons.prems(1) by simp_all
  obtain sc mv g1 where r0: "rec g (position_after C s m) best PosInf
      = (Inr (sc, mv), g1, position_after C s m)"
    using rec_ok by blast
  have w1: "(best < sc \<longrightarrow> sc \<le> V (position_after C s m))
      \<and> (sc < PosInf \<longrightarrow> V (position_after C s m) \<le> sc)"
    using sound [OF m Cons.prems(2) r0] window_sound_iff [OF Cons.prems(2)] by blast
  have exact: "V (position_after C s m) = sc" if "best < sc"
  proof (cases "sc = PosInf")
    case True
    then show ?thesis using w1 that by simp
  next
    case False
    then have "sc < PosInf"
      by (cases sc) simp_all
    then show ?thesis
      using w1 that by (simp add: order_antisym)
  qed
  let ?best = "max best sc"
  let ?bm = "if best < sc then Some (uci_of m) else bm"
  have inv': "root_inv (set (moves C s)) (\<lambda>m. V (position_after C s m)) NegInf ?best ?bm"
  proof (cases "best < sc")
    case True
    then have "?best = sc"
      by (intro max.absorb2 less_imp_le)
    then show ?thesis
      using True m exact by (auto simp add: root_inv_def)
  next
    case False
    then have "sc \<le> best"
      by (simp only: not_less)
    then have "?best = best"
      by (rule max.absorb1)
    then show ?thesis
      using False Cons.prems(3) by simp
  qed
  note step = search_step [where rec = rec and isMax = True and ms = ms and best = best
      and bm = bm and a = best and b = PosInf, OF law m r0]
  have idem: "max best (max best sc) = max best sc"
    by simp
  show ?case
  proof (cases "PosInf \<le> max best sc")
    case True
    have "r = ?best \<and> bm' = ?bm"
      using Cons.prems(4) True unfolding step idem by simp
    then show ?thesis
      using inv' by simp
  next
    case False
    have run: "search_loop rec C True ms g1 s ?best PosInf ?best ?bm = (Inr (r, bm'), g', s')"
      using Cons.prems(4) False unfolding step idem by simp
    have "?best < PosInf"
      using False by (simp only: not_le)
    then show ?thesis
      using Cons.IH [OF rest _ inv' run] by blast
  qed
qed

lemma root_min_exact:
  assumes law: "undo_law C"
    and rec_ok: "\<And>g s a b. \<exists>sc mv g1. rec g s a b = (Inr (sc, mv), g1, s)"
    and sound: "\<And>g m a b sc mv g1 s1. m \<in> set (moves C s) \<Longrightarrow> a < b \<Longrightarrow>
        rec g (position_after C s m) a b = (Inr (sc, mv), g1, s1) \<Longrightarrow>
        window_sound a b (V (position_after C s m)) sc"
  shows "set ms \<subseteq> set (moves C s) \<Longrightarrow> NegInf < best \<Longrightarrow>
         root_inv (set (moves C s)) (\<lambda>m. V (position_after C s m)) PosInf best bm \<Longrightarrow>
         search_loop rec C False ms g s NegInf best best bm = (Inr (r, bm'), g', s') \<Longrightarrow>
         root_inv (set (moves C s)) (\<lambda>m. V (position_after C s m)) PosInf r bm'"
proof (induction ms arbitrary: g best bm)
  case Nil
  then show ?case by simp
next
  case (Cons m ms)
  have m: "m \<in> set (moves C s)" and rest: "set ms \<subseteq> set (moves C s)"
    using Cons.prems(1) by simp_all
  obtain sc mv g1 where r0: "rec g (position_after C s m) NegInf best
      = (Inr (sc, mv), g1, position_after C s m)"
    using rec_ok by blast
  have w1: "(NegInf < sc \<longrightarrow> sc \<le> V (position_after C s m))
      \<and> (sc < best \<longrightarrow> V (position_after C s m) \<le> sc)"
    using sound [OF m Cons.prems(2) r0] window_sound_iff [OF Cons.prems(2)] by blast
  have exact: "V (position_after C s m) = sc" if "sc < best"
  proof (cases "sc = NegInf")
    case True
    then show ?thesis using w1 that by simp
  next
    case False
    then have "NegInf < sc"
      by (cases sc) simp_all
    then show ?thesis
      using w1 that by (simp add: order_antisym)
  qed
  let ?best = "min best sc"
  let ?bm = "if sc < best then Some (uci_of m) else bm"
  have inv': "root_inv (set (moves C s)) (\<lambda>m. V (position_after C s m)) PosInf ?best ?bm"
  proof (cases "sc < best")
    case True
    then have "?best = sc"
      by (intro min.absorb2 less_imp_le)
    then show ?thesis
      using True m exact by (auto simp add: root_inv_def)
  next
    case False
    then have "best \<le> sc"
      by (simp only: not_less)
    then have "?best = best"
      by (rule min.absorb1)
    then show ?thesis
      using False Cons.prems(3) by simp
  qed
  note step = search_step [where rec = rec and isMax = False and ms = ms and best = best
      and bm = bm and a = NegInf and b = best, OF law m r0]
  have idem: "min best (min best sc) = min best sc"
    by simp
  show ?case
  proof (cases "min best sc \<le> NegInf")
    case True
    have "r = ?best \<and> bm' = ?bm"
      using Cons.prems(4) True unfolding step idem by simp
    then show ?thesis
      using inv' by simp
  next
    case False
    have run: "search_loop rec C False ms g1 s NegInf ?best ?best ?bm = (Inr (r, bm'), g', s')"
      using Cons.prems(4) False unfolding step idem by simp
    have "NegInf < ?best"
      using False by (simp only: not_le)
    then show ?thesis
      using Cons.IH [OF rest _ inv' run] by blast
  qed
qed

lemma leaf_score_finite: "\<exists>x. leaf_score C s col = Fin x"
  by (simp add: leaf_score_def Let_def)

lemma fold_max_finite:
  "\<forall>v \<in> set vs. \<exists>x. v = Fin x \<Longrightarrow> b \<noteq> PosInf \<Longrightarrow> vs \<noteq> [] \<or> b \<noteq> NegInf \<Longrightarrow>
   \<exists>x. fold max vs b = Fin x"
proof (induction vs arbitrary: b)
  case Nil
  then show ?case by (cases b) simp_all
next
  case (Cons v vs)
  obtain x where v: "v = Fin x"
    using Cons.prems(1) by auto
  have "\<exists>y. max v b = Fin y"
    using v Cons.prems(2) by (cases b) (simp_all add: max_def)
  then obtain y where y: "max v b = Fin y" ..
  show ?case
    using Cons.IH [of "max v b"] Cons.prems(1) y by simp
qed

lemma fold_min_finite:
  "\<forall>v \<in> set vs. \<exists>x. v = Fin x \<Longrightarrow> b \<noteq> NegInf \<Longrightarrow> vs \<noteq> [] \<or> b \<noteq> PosInf \<Longrightarrow>
   \<exists>x. fold min vs b = Fin x"
proof (induction vs arbitrary: b)
  case Nil
  then show ?case by (cases b) simp_all
next
  case (Cons v vs)
  obtain x where v: "v = Fin x"
    using Cons.prems(1) by auto
  have "\<exists>y. min v b = Fin y"
    using v Cons.prems(2) by (cases b) (simp_all add: min_def)
  then obtain y where y: "min v b = Fin y" ..
  show ?case
    using Cons.IH [of "min v b"] Cons.prems(1) y by simp
qed

lemma plain_minimax_finite:
  assumes "moves_law C"
  shows "\<exists>x. plain_minimax C col d s = Fin x"
proof (induction d arbitrary: s)
  case 0
  show ?case using leaf_score_finite [of C s col] by simp
next
  case (Suc d)
  show ?case
  proof (cases "isGameOver C s")
    case True
    then show ?thesis using leaf_score_finite [of C s col] by simp
  next
    case False
    then have ne: "moves C s \<noteq> []"
      using assms by (simp add: moves_law_def)
    let ?vs = "map (\<lambda>m. plain_minimax C col d (position_after C s m)) (moves C s)"
    have fin: "\<forall>v \<in> set ?vs. \<exists>x. v = Fin x"
      using Suc.IH by auto
    have ne': "?vs \<noteq> []"
      using ne by simp
    show ?thesis
      using False fold_max_finite [OF fin, of NegInf] fold_min_finite [OF fin, of PosInf] ne'
      by simp
  qed
qed

lemma minimax_full_window:
  assumes law: "undo_law C" and sh: "shuffle_law R"
  shows "\<exists>mv g'. minimax C R d col g s NegInf PosInf = (Inr (plain_minimax C col d s, mv), g', s)
           \<and> (\<forall>u. mv = Some u \<longrightarrow>
                 (\<exists>m \<in> set (moves C s). u = uci_of m
                    \<and> plain_minimax C col (d - 1) (position_after C s m) = plain_minimax C col d s))
           \<and> (moves_law C \<and> d \<noteq> 0 \<and> \<not> isGameOver C s \<longrightarrow> mv \<noteq> None)"
proof -
  obtain sc mv g' where run: "minimax C R d col g s NegInf PosInf = (Inr (sc, mv), g', s)"
    using minimax_ok [OF law sh] by blast
  have "window_sound NegInf PosInf (plain_minimax C col d s) sc"
    by (rule minimax_sound [OF law sh _ run]) simp
  then have sc: "sc = plain_minimax C col d s"
    by (rule window_sound_full)
  have root: "root_inv (set (moves C s)) (\<lambda>m. plain_minimax C col (d - 1) (position_after C s m))
      (if turn C s = col then NegInf else PosInf) sc mv"
    if live: "d \<noteq> 0" "\<not> isGameOver C s"
  proof -
    obtain d' where d: "d = Suc d'"
      using live(1) by (cases d) simp_all
    obtain ms g1 where shf: "sort_shuffle R g (moves C s) = (ms, g1)"
      by (metis prod.collapse)
    have sub: "set ms \<subseteq> set (moves C s)"
      using shuffle_set [OF sh shf] by (metis mset_eq_setD order_refl)
    show ?thesis
    proof (cases "turn C s = col")
      case True
      have loop: "search_loop (minimax C R d' col) C True ms g1 s NegInf PosInf NegInf None
          = (Inr (sc, mv), g', s)"
        using run live(2) True shf unfolding d by (simp add: Let_def)
      have "root_inv (set (moves C s)) (\<lambda>m. plain_minimax C col d' (position_after C s m))
          NegInf sc mv"
        by (rule root_max_exact [where rec = "minimax C R d' col" and V = "plain_minimax C col d'",
              OF law minimax_ok [OF law sh] minimax_sound [OF law sh] sub _ _ loop])
           (simp_all add: root_inv_def)
      then show ?thesis
        using True d by simp
    next
      case False
      have loop: "search_loop (minimax C R d' col) C False ms g1 s NegInf PosInf PosInf None
          = (Inr (sc, mv), g', s)"
        using run live(2) False shf unfolding d by (simp add: Let_def)
      have "root_inv (set (moves C s)) (\<lambda>m. plain_minimax C col d' (position_after C s m))
          PosInf sc mv"
        by (rule root_min_exact [where rec = "minimax C R d' col" and V = "plain_minimax C col d'",
              OF law minimax_ok [OF law sh] minimax_sound [OF law sh] sub _ _ loop])
           (simp_all add: root_inv_def)
      then show ?thesis
        using False d by simp
    qed
  qed
  have none: "mv = None" if "d = 0 \<or> isGameOver C s"
    using that run by (cases d) (auto split: if_splits)
  have opt: "\<exists>m \<in> set (moves C s). u = uci_of m
      \<and> plain_minimax C col (d - 1) (position_after C s m) = plain_minimax C col d s"
    if "mv = Some u" for u
  proof -
    have "\<not> (d = 0 \<or> isGameOver C s)"
    proof
      assume "d = 0 \<or> isGameOver C s"
      then have "mv = None"
        by (rule none)
      then show False
        using that by simp
    qed
    then have "d \<noteq> 0" "\<not> isGameOver C s"
      by simp_all
    then show ?thesis
      using root that sc by (auto simp add: root_inv_def)
  qed
  have some: "mv \<noteq> None" if "moves_law C" "d \<noteq> 0" "\<not> isGameOver C s"
  proof
    assume "mv = None"
    then have "sc = (if turn C s = col then NegInf else PosInf)"
      using root [OF that(2,3)] by (simp add: root_inv_def)
    then show False
      using plain_minimax_finite [OF that(1), of col d s] sc by (auto split: if_splits)
  qed
  show ?thesis
    using run sc opt some by blast
qed

text \<open>
  Claim C7. \<open>chooseAiMove\<close> receives the FEN string of the caller's position and builds an
  object of its own from it, so the caller's object is out of its reach. On that object the
  search makes a move, recurses and undoes the move before it goes on: whenever the library
  undoes what it accepted and the shuffle permutes, \<open>minimax\<close> returns, without an
  exception, with the object in the state it was called with, for every depth, window and
  generator; and so does its loop from any point on (any remaining siblings \<open>ms\<close>, any
  \<open>alpha\<close>, \<open>beta\<close> and best score), whether it runs to the end of the list or leaves at
  \<open>break\<close>.
\<close>

theorem search_restores_position:
  assumes "undo_law C" "shuffle_law R"
  shows "snd (snd (minimax C R d col g s a b)) = s
         \<and> (\<exists>r. fst (minimax C R d col g s a b) = Inr r)
         \<and> (set ms \<subseteq> set (moves C s) \<longrightarrow>
              snd (snd (search_loop (minimax C R d col) C isMax ms g s a b best bm)) = s
              \<and> (\<exists>r. fst (search_loop (minimax C R d col) C isMax ms g s a b best bm) = Inr r))"
proof -
  have call: "\<And>g s a b. \<exists>sc mv g1. minimax C R d col g s a b = (Inr (sc, mv), g1, s)"
    by (rule minimax_ok [OF assms])
  have loop: "\<exists>sc mv g1. search_loop (minimax C R d col) C isMax ms g s a b best bm
      = (Inr (sc, mv), g1, s)" if "set ms \<subseteq> set (moves C s)"
    using assms(1) call that by (rule search_loop_ok)
  have 1: "snd (snd (minimax C R d col g s a b)) = s \<and> (\<exists>r. fst (minimax C R d col g s a b) = Inr r)"
    using call [of g s a b] by auto
  have 2: "snd (snd (search_loop (minimax C R d col) C isMax ms g s a b best bm)) = s
      \<and> (\<exists>r. fst (search_loop (minimax C R d col) C isMax ms g s a b best bm) = Inr r)"
    if "set ms \<subseteq> set (moves C s)"
    using loop [OF that] by auto
  show ?thesis
    using 1 2 by blast
qed

theorem search_restores_position_witness:
  "undo_law pile_chess \<and> shuffle_law flip_rng
   \<and> set [take_two] \<subseteq> set (moves pile_chess \<lparr>pile = 4, mover = B, hist = [1]\<rparr>)
   \<and> snd (snd (minimax pile_chess flip_rng 3 B (0::nat) \<lparr>pile = 4, mover = B, hist = [1]\<rparr>
                 NegInf PosInf))
       = \<lparr>pile = 4, mover = B, hist = [1]\<rparr>
   \<and> snd (snd (search_loop (minimax pile_chess flip_rng 3 B) pile_chess True [take_two] (5::nat)
                 \<lparr>pile = 4, mover = B, hist = [1]\<rparr> (Fin 0) (Fin 7) (Fin 0) (Some ''a1a2'')))
       = \<lparr>pile = 4, mover = B, hist = [1]\<rparr>"
proof -
  have sub: "set [take_two] \<subseteq> set (moves pile_chess \<lparr>pile = 4, mover = B, hist = [1]\<rparr>)"
    by (simp add: pile_chess_def pile_moves_def)
  note t = search_restores_position [OF pile_undo_law flip_shuffle_law,
      where d = 3 and col = B and g = "0::nat" and s = "\<lparr>pile = 4, mover = B, hist = [1]\<rparr>"
        and a = NegInf and b = PosInf]
  note u = search_restores_position [OF pile_undo_law flip_shuffle_law,
      where d = 3 and col = B and g = "5::nat" and s = "\<lparr>pile = 4, mover = B, hist = [1]\<rparr>"
        and a = "Fin 0" and b = "Fin 7" and ms = "[take_two]" and isMax = True
        and best = "Fin 0" and bm = "Some ''a1a2''"]
  show ?thesis
    by (intro conjI pile_undo_law flip_shuffle_law sub t [THEN conjunct1]
        u [THEN conjunct2, THEN conjunct2, THEN mp, OF sub, THEN conjunct1])
qed

text \<open>
  Claim C6. Called with the full window, \<open>minimax\<close> returns the score of plain minimax
  at the same position and depth, for every generator state and every shuffle that
  permutes: the order of the moves and the cut-offs have no influence on the score. They
  bear on the move only: the move returned is the string of a listed move whose own value
  under plain minimax is that score, so whichever move the order of the search selects is
  as good as any; and where the position is not over and has a move, a move is returned.
\<close>

theorem minimax_equals_plain:
  assumes "undo_law C" "shuffle_law R"
  shows "\<exists>mv. fst (minimax C R d col g s NegInf PosInf) = Inr (plain_minimax C col d s, mv)
           \<and> (\<forall>u. mv = Some u \<longrightarrow>
                 (\<exists>m \<in> set (moves C s). u = uci_of m
                    \<and> plain_minimax C col (d - 1) (position_after C s m) = plain_minimax C col d s))
           \<and> (moves_law C \<and> d \<noteq> 0 \<and> \<not> isGameOver C s \<longrightarrow> mv \<noteq> None)"
proof -
  obtain mv g' where "minimax C R d col g s NegInf PosInf = (Inr (plain_minimax C col d s, mv), g', s)
           \<and> (\<forall>u. mv = Some u \<longrightarrow>
                 (\<exists>m \<in> set (moves C s). u = uci_of m
                    \<and> plain_minimax C col (d - 1) (position_after C s m) = plain_minimax C col d s))
           \<and> (moves_law C \<and> d \<noteq> 0 \<and> \<not> isGameOver C s \<longrightarrow> mv \<noteq> None)"
    using minimax_full_window [OF assms] by blast
  then show ?thesis
    by (intro exI [of _ mv]) simp
qed

theorem minimax_equals_plain_witness:
  "undo_law pile_chess \<and> shuffle_law flip_rng \<and> moves_law pile_chess
   \<and> \<not> isGameOver pile_chess \<lparr>pile = 7, mover = W, hist = []\<rparr>
   \<and> (\<exists>mv. fst (minimax pile_chess flip_rng 3 W (1::nat) \<lparr>pile = 7, mover = W, hist = []\<rparr>
                    NegInf PosInf)
              = Inr (plain_minimax pile_chess W 3 \<lparr>pile = 7, mover = W, hist = []\<rparr>, mv)
        \<and> (\<forall>u. mv = Some u \<longrightarrow>
              (\<exists>m \<in> set (moves pile_chess \<lparr>pile = 7, mover = W, hist = []\<rparr>). u = uci_of m
                 \<and> plain_minimax pile_chess W (3 - 1)
                      (position_after pile_chess \<lparr>pile = 7, mover = W, hist = []\<rparr> m)
                   = plain_minimax pile_chess W 3 \<lparr>pile = 7, mover = W, hist = []\<rparr>))
        \<and> (moves_law pile_chess \<and> (3::nat) \<noteq> 0
            \<and> \<not> isGameOver pile_chess \<lparr>pile = 7, mover = W, hist = []\<rparr> \<longrightarrow> mv \<noteq> None))
   \<and> plain_minimax pile_chess W 3 \<lparr>pile = 7, mover = W, hist = []\<rparr> = Fin 100000
   \<and> fst (minimax pile_chess flip_rng 3 W (0::nat) \<lparr>pile = 7, mover = W, hist = []\<rparr>
             NegInf PosInf) = Inr (Fin 100000, Some ''a1a2'')
   \<and> fst (minimax pile_chess flip_rng 3 W (1::nat) \<lparr>pile = 7, mover = W, hist = []\<rparr>
             NegInf PosInf) = Inr (Fin 100000, Some ''a1a2'')
   \<and> plain_minimax pile_chess W 2 \<lparr>pile = 6, mover = B, hist = [1]\<rparr> = Fin 100000
   \<and> plain_minimax pile_chess W 2 \<lparr>pile = 5, mover = B, hist = [2]\<rparr> = Fin (- 100000)
   \<and> fst (minimax pile_chess flip_rng 2 W (0::nat) \<lparr>pile = 6, mover = W, hist = []\<rparr>
             NegInf PosInf) = Inr (Fin (- 100000), Some ''a1a2'')
   \<and> fst (minimax pile_chess flip_rng 2 W (1::nat) \<lparr>pile = 6, mover = W, hist = []\<rparr>
             NegInf PosInf) = Inr (Fin (- 100000), Some ''a1a6'')"
proof -
  have live: "\<not> isGameOver pile_chess \<lparr>pile = 7, mover = W, hist = []\<rparr>"
    by (simp add: pile_chess_def)
  have v: "plain_minimax pile_chess W 3 \<lparr>pile = 7, mover = W, hist = []\<rparr> = Fin 100000"
    by code_simp
  have r0: "fst (minimax pile_chess flip_rng 3 W (0::nat) \<lparr>pile = 7, mover = W, hist = []\<rparr>
             NegInf PosInf) = Inr (Fin 100000, Some ''a1a2'')"
    by code_simp
  have r1: "fst (minimax pile_chess flip_rng 3 W (1::nat) \<lparr>pile = 7, mover = W, hist = []\<rparr>
             NegInf PosInf) = Inr (Fin 100000, Some ''a1a2'')"
    by code_simp
  have c1: "plain_minimax pile_chess W 2 \<lparr>pile = 6, mover = B, hist = [1]\<rparr> = Fin 100000"
    by code_simp
  have c2: "plain_minimax pile_chess W 2 \<lparr>pile = 5, mover = B, hist = [2]\<rparr> = Fin (- 100000)"
    by code_simp
  have t0: "fst (minimax pile_chess flip_rng 2 W (0::nat) \<lparr>pile = 6, mover = W, hist = []\<rparr>
             NegInf PosInf) = Inr (Fin (- 100000), Some ''a1a2'')"
    by code_simp
  have t1: "fst (minimax pile_chess flip_rng 2 W (1::nat) \<lparr>pile = 6, mover = W, hist = []\<rparr>
             NegInf PosInf) = Inr (Fin (- 100000), Some ''a1a6'')"
    by code_simp
  show ?thesis
    by (intro conjI pile_undo_law flip_shuffle_law pile_moves_law live v r0 r1 c1 c2 t0 t1
        minimax_equals_plain [OF pile_undo_law flip_shuffle_law])
qed

section \<open>The chosen move is a legal move\<close>

lemma pickRandom_in_range:
  assumes "random_law R" "arr \<noteq> []"
  shows "pickRandom R g arr
         = (Some (arr ! nat \<lfloor>to_double (fst (math_random R g) * real (length arr))\<rfloor>),
            snd (math_random R g))
         \<and> nat \<lfloor>to_double (fst (math_random R g) * real (length arr))\<rfloor> < length arr"
proof -
  have u: "0 \<le> fst (math_random R g)" "fst (math_random R g) \<le> 1 - 1 / 2 ^ 53"
    using assms(1) by (simp_all add: random_law_def)
  have n: "0 < length arr"
    using assms(2) by simp
  show ?thesis
    using pick_index [OF u n] by (simp add: pickRandom_def Let_def split_beta)
qed

lemma chooseAiMove_result:
  assumes "moves_law C" "shuffle_law R" "random_law R" "diff \<noteq> Easy \<longrightarrow> undo_law C"
  shows "(isGameOver C (load C f) \<or> turn C (load C f) \<noteq> col \<longrightarrow>
            fst (chooseAiMove C R g f col diff) = Inr None)
         \<and> (\<not> isGameOver C (load C f) \<and> turn C (load C f) = col \<longrightarrow>
            (\<exists>m \<in> set (moves C (load C f)).
                fst (chooseAiMove C R g f col diff) = Inr (Some (uci_of m))))"
proof (intro conjI impI)
  assume "isGameOver C (load C f) \<or> turn C (load C f) \<noteq> col"
  then show "fst (chooseAiMove C R g f col diff) = Inr None"
    by (auto simp add: chooseAiMove_def Let_def)
next
  assume live: "\<not> isGameOver C (load C f) \<and> turn C (load C f) = col"
  let ?s = "load C f"
  show "\<exists>m \<in> set (moves C ?s). fst (chooseAiMove C R g f col diff) = Inr (Some (uci_of m))"
  proof (cases "diff = Easy")
    case True
    let ?caps = "filter is_capture (moves C ?s)"
    let ?pool = "if ?caps \<noteq> [] then ?caps else moves C ?s"
    have "moves C ?s \<noteq> []"
      using assms(1) live by (simp add: moves_law_def)
    then have ne: "?pool \<noteq> []"
      by simp
    let ?i = "nat \<lfloor>to_double (fst (math_random R g) * real (length ?pool))\<rfloor>"
    have pick: "pickRandom R g ?pool = (Some (?pool ! ?i), snd (math_random R g))"
      and i: "?i < length ?pool"
      using pickRandom_in_range [OF assms(3) ne, of g] by blast+
    have "?pool ! ?i \<in> set ?pool"
      using i by (rule nth_mem)
    then have mem: "?pool ! ?i \<in> set (moves C ?s)"
      by (auto split: if_splits)
    have "fst (chooseAiMove C R g f col diff) = Inr (Some (uci_of (?pool ! ?i)))"
      using live True pick by (simp add: chooseAiMove_def Let_def split: if_splits)
    then show ?thesis
      using mem by blast
  next
    case False
    then have law: "undo_law C"
      using assms(4) by simp
    let ?d = "if diff = Medium then 2 else (3::nat)"
    have d: "?d \<noteq> 0"
      by simp
    obtain mv g' where run: "minimax C R ?d col g ?s NegInf PosInf
          = (Inr (plain_minimax C col ?d ?s, mv), g', ?s)"
      and opt: "\<forall>u. mv = Some u \<longrightarrow> (\<exists>m \<in> set (moves C ?s). u = uci_of m
          \<and> plain_minimax C col (?d - 1) (position_after C ?s m) = plain_minimax C col ?d ?s)"
      and some: "moves_law C \<and> ?d \<noteq> 0 \<and> \<not> isGameOver C ?s \<longrightarrow> mv \<noteq> None"
      using minimax_full_window [OF law assms(2), of ?d col g ?s] by blast
    obtain u where u: "mv = Some u"
      using some assms(1) d live by auto
    obtain m where m: "m \<in> set (moves C ?s)" and um: "u = uci_of m"
      using opt u by blast
    have "fst (chooseAiMove C R g f col diff) = Inr (Some (uci_of m))"
      using live False run u um by (simp add: chooseAiMove_def Let_def)
    then show ?thesis
      using m by blast
  qed
qed

text \<open>
  Claim C5. On a position that is over, or whose side to move is not \<open>aiColor\<close>,
  \<open>chooseAiMove\<close> returns \<open>null\<close>. On any other position, at every difficulty, it returns
  the string of one of the moves the library lists for that position. The position is the
  one the library builds from the FEN string. The search of the upper two difficulties
  calls \<open>move\<close> and \<open>undo\<close>, so there the library has to accept what it lists and undo
  what it accepted, or the call would throw.
\<close>

theorem chooseAiMove_legal:
  assumes "moves_law C" "shuffle_law R" "random_law R" "diff \<noteq> Easy \<longrightarrow> undo_law C"
  shows "(isGameOver C (load C f) \<or> turn C (load C f) \<noteq> col \<longrightarrow>
            fst (chooseAiMove C R g f col diff) = Inr None)
         \<and> (\<not> isGameOver C (load C f) \<and> turn C (load C f) = col \<longrightarrow>
            (\<exists>m \<in> set (moves C (load C f)).
                fst (chooseAiMove C R g f col diff) = Inr (Some (uci_of m))))"
  using assms by (rule chooseAiMove_result)

theorem chooseAiMove_legal_witness:
  "moves_law pile_chess \<and> shuffle_law flip_rng \<and> random_law flip_rng
   \<and> undo_law pile_chess
   \<and> \<not> isGameOver pile_chess (load pile_chess ''wooo'')
   \<and> turn pile_chess (load pile_chess ''wooo'') = W
   \<and> (\<exists>m \<in> set (moves pile_chess (load pile_chess ''wooo'')).
         fst (chooseAiMove pile_chess flip_rng (0::nat) ''wooo'' W Hard) = Inr (Some (uci_of m)))
   \<and> (\<exists>m \<in> set (moves pile_chess (load pile_chess ''wooo'')).
         fst (chooseAiMove pile_chess flip_rng (0::nat) ''wooo'' W Easy) = Inr (Some (uci_of m)))
   \<and> isGameOver pile_chess (load pile_chess ''b'')
   \<and> fst (chooseAiMove pile_chess flip_rng (0::nat) ''b'' B Easy) = Inr None
   \<and> turn pile_chess (load pile_chess ''wooo'') \<noteq> B
   \<and> fst (chooseAiMove pile_chess flip_rng (0::nat) ''wooo'' B Medium) = Inr None"
proof -
  have live: "\<not> isGameOver pile_chess (load pile_chess ''wooo'')
      \<and> turn pile_chess (load pile_chess ''wooo'') = W"
    by (simp add: pile_chess_def pile_load_def)
  have over: "isGameOver pile_chess (load pile_chess ''b'')"
    by (simp add: pile_chess_def pile_load_def)
  have other_turn: "turn pile_chess (load pile_chess ''wooo'') \<noteq> B"
    using live by simp
  have law: "d \<noteq> Easy \<longrightarrow> undo_law pile_chess" for d
    using pile_undo_law by simp
  note t = chooseAiMove_legal [OF pile_moves_law flip_shuffle_law flip_random_law law]
  show ?thesis
    by (intro conjI pile_moves_law flip_shuffle_law flip_random_law pile_undo_law
        live [THEN conjunct1] live [THEN conjunct2] over other_turn
        t [THEN conjunct2, THEN mp, OF live]
        t [THEN conjunct1, THEN mp, OF disjI1, OF over]
        t [THEN conjunct1, THEN mp, OF disjI2, OF other_turn])
qed

section \<open>Easy difficulty\<close>












section \<open>The computer's reply in solo mode\<close>

lemma parse_uci_uci_of:
  assumes "length (m_from m) = 2" "length (m_to m) = 2"
    and "case m_promotion m of None \<Rightarrow> True | Some p \<Rightarrow> length p = 1"
  shows "parse_uci (uci_of m) = input_of m"
proof (cases "m_promotion m")
  case None
  then show ?thesis
    using assms(1,2) by (simp add: parse_uci_def uci_of_def input_of_def Let_def)
next
  case (Some p)
  then have "length p = 1"
    using assms(3) by simp
  then obtain c where "p = [c]"
    by (cases p) auto
  then show ?thesis
    using assms(1,2) Some by (simp add: parse_uci_def uci_of_def input_of_def Let_def)
qed

lemma maybeFinalize_over:
  "isGameOver C (chess rm) \<Longrightarrow> status (maybeFinalize C rm) = Ended"
  by (simp add: maybeFinalize_def Let_def)

lemma maybeFinalize_live:
  "\<not> isGameOver C (chess rm) \<Longrightarrow> maybeFinalize C rm = rm"
  by (simp add: maybeFinalize_def Let_def)

lemma maybeFinalize_frame:
  "chess (maybeFinalize C rm) = chess rm \<and> selection (maybeFinalize C rm) = selection rm
   \<and> lastMove (maybeFinalize C rm) = lastMove rm \<and> seats (maybeFinalize C rm) = seats rm"
  by (simp add: maybeFinalize_def Let_def)

lemma applyMove_accepted:
  assumes "status rm = Playing" "occupies (seats rm) (turn C (chess rm)) pid"
    and "move C (chess rm) (parse_uci uci) = Inr (Some (mv, c1))"
  shows "applyMove C R g rm pid uci =
     (let room1 = maybeFinalize C (rm\<lparr>chess := c1, lastMove := Some (uci_of mv)\<rparr>) in
      if mode (selection room1) = Solo \<and> status room1 = Playing then
        (case chooseAiMove C R g (fen C (chess room1)) B (difficulty (selection room1)) of
           (Inl e, g') \<Rightarrow> (Inl e, room1, g')
         | (Inr None, g') \<Rightarrow> (Inr \<lparr>ok = True, reason = None\<rparr>, room1, g')
         | (Inr (Some aiMove), g') \<Rightarrow>
             (case move C (chess room1) (parse_uci aiMove) of
                Inl e \<Rightarrow> (Inl e, room1, g')
              | Inr None \<Rightarrow> (Inr \<lparr>ok = True, reason = None\<rparr>, room1, g')
              | Inr (Some (moved, c2)) \<Rightarrow>
                  (Inr \<lparr>ok = True, reason = None\<rparr>,
                   maybeFinalize C (room1\<lparr>chess := c2, lastMove := Some (uci_of moved)\<rparr>),
                   g')))
      else (Inr \<lparr>ok = True, reason = None\<rparr>, room1, g))"
  using assms by (simp add: applyMove_def)

text \<open>
  Claim C2. In solo mode the human plays White. When White's move is accepted and the
  position after it is over, \<open>applyMove\<close> finalizes the match and applies no further move.
  When it is not over, \<open>applyMove\<close> applies exactly one more move within the same call, a
  legal move of Black's chosen by \<open>chooseAiMove\<close>, and the side to move is White again.
\<close>

theorem solo_reply:
  assumes laws: "moves_law C" "undo_law C" "turn_law C" "fen_law C" "shape_law C"
      "shuffle_law R" "random_law R"
    and solo: "mode (selection rm) = Solo"
    and playing: "status rm = Playing"
    and white: "turn C (chess rm) = W"
    and seated: "occupies (seats rm) W pid"
    and human: "move C (chess rm) (parse_uci uci) = Inr (Some (mv, c1))"
  shows "(isGameOver C c1 \<longrightarrow>
            applyMove C R g rm pid uci
              = (Inr \<lparr>ok = True, reason = None\<rparr>,
                 maybeFinalize C (rm\<lparr>chess := c1, lastMove := Some (uci_of mv)\<rparr>), g)
            \<and> status (fst (snd (applyMove C R g rm pid uci))) = Ended
            \<and> chess (fst (snd (applyMove C R g rm pid uci))) = c1)
         \<and> (\<not> isGameOver C c1 \<longrightarrow>
            (\<exists>m \<in> set (moves C c1). \<exists>moved c2 g'.
                move C c1 (parse_uci (uci_of m)) = Inr (Some (moved, c2))
                \<and> applyMove C R g rm pid uci
                    = (Inr \<lparr>ok = True, reason = None\<rparr>,
                       maybeFinalize C (rm\<lparr>chess := c2, lastMove := Some (uci_of moved)\<rparr>), g')
                \<and> chess (fst (snd (applyMove C R g rm pid uci))) = c2
                \<and> turn C c2 = W))"
proof -
  let ?rm1 = "rm\<lparr>chess := c1, lastMove := Some (uci_of mv)\<rparr>"
  have seated': "occupies (seats rm) (turn C (chess rm)) pid"
    using seated white by simp
  note unfold = applyMove_accepted [OF playing seated' human, of R g]
  have over_case: "applyMove C R g rm pid uci
        = (Inr \<lparr>ok = True, reason = None\<rparr>, maybeFinalize C ?rm1, g)
      \<and> status (fst (snd (applyMove C R g rm pid uci))) = Ended
      \<and> chess (fst (snd (applyMove C R g rm pid uci))) = c1" if over: "isGameOver C c1"
  proof -
    have ended: "status (maybeFinalize C ?rm1) = Ended"
      using over by (simp add: maybeFinalize_over)
    have res: "applyMove C R g rm pid uci
        = (Inr \<lparr>ok = True, reason = None\<rparr>, maybeFinalize C ?rm1, g)"
      unfolding unfold using ended by (simp add: Let_def)
    have "chess (maybeFinalize C ?rm1) = c1"
      using maybeFinalize_frame [of C ?rm1] by simp
    then show ?thesis
      using res ended by simp
  qed
  have live_case: "\<exists>m \<in> set (moves C c1). \<exists>moved c2 g'.
            move C c1 (parse_uci (uci_of m)) = Inr (Some (moved, c2))
            \<and> applyMove C R g rm pid uci
                = (Inr \<lparr>ok = True, reason = None\<rparr>,
                   maybeFinalize C (rm\<lparr>chess := c2, lastMove := Some (uci_of moved)\<rparr>), g')
            \<and> chess (fst (snd (applyMove C R g rm pid uci))) = c2
            \<and> turn C c2 = W" if live: "\<not> isGameOver C c1"
  proof -
    have rm1: "maybeFinalize C ?rm1 = ?rm1"
      using live by (simp add: maybeFinalize_live)
    have black: "turn C c1 = B"
      using laws(3) human white unfolding turn_law_def by fastforce
    let ?s = "load C (fen C c1)"
    have loaded: "turn C ?s = B" "moves C ?s = moves C c1" "\<not> isGameOver C ?s"
      using laws(4) black live unfolding fen_law_def by auto
    obtain m where m: "m \<in> set (moves C c1)"
      and ai: "fst (chooseAiMove C R g (fen C c1) B (difficulty (selection rm))) = Inr (Some (uci_of m))"
      using chooseAiMove_result [where f = "fen C c1" and col = B and g = g
          and diff = "difficulty (selection rm)", OF laws(1,6,7)] laws(2) loaded
      by auto
    obtain g' where ai': "chooseAiMove C R g (fen C c1) B (difficulty (selection rm))
        = (Inr (Some (uci_of m)), g')"
      using ai by (metis prod.collapse)
    have shape: "parse_uci (uci_of m) = input_of m"
      using laws(5) m unfolding shape_law_def by (intro parse_uci_uci_of) auto
    obtain moved c2 where reply: "move C c1 (input_of m) = Inr (Some (moved, c2))"
      using laws(2) m unfolding undo_law_def by blast
    have again: "turn C c2 = W"
      using laws(3) reply black unfolding turn_law_def by fastforce
    have res: "applyMove C R g rm pid uci
        = (Inr \<lparr>ok = True, reason = None\<rparr>,
           maybeFinalize C (rm\<lparr>chess := c2, lastMove := Some (uci_of moved)\<rparr>), g')"
      unfolding unfold rm1 using solo playing ai' shape reply by (simp add: Let_def)
    have pos: "chess (fst (snd (applyMove C R g rm pid uci))) = c2"
      unfolding res using maybeFinalize_frame [of C "rm\<lparr>chess := c2, lastMove := Some (uci_of moved)\<rparr>"]
      by simp
    have "move C c1 (parse_uci (uci_of m)) = Inr (Some (moved, c2))"
      using reply shape by simp
    then show ?thesis
      using m res pos again by blast
  qed
  show ?thesis
    using over_case live_case by blast
qed

theorem solo_reply_witness:
  "moves_law pile_chess \<and> undo_law pile_chess \<and> turn_law pile_chess \<and> fen_law pile_chess
   \<and> shape_law pile_chess \<and> shuffle_law flip_rng \<and> random_law flip_rng
   \<and> mode (selection (pile_room Solo Medium Playing 5)) = Solo
   \<and> status (pile_room Solo Medium Playing 5) = Playing
   \<and> turn pile_chess (chess (pile_room Solo Medium Playing 5)) = W
   \<and> occupies (seats (pile_room Solo Medium Playing 5)) W ''1''
   \<and> move pile_chess (chess (pile_room Solo Medium Playing 5)) (parse_uci ''a1a2'')
       = Inr (Some (take_one, \<lparr>pile = 4, mover = B, hist = [1]\<rparr>))
   \<and> \<not> isGameOver pile_chess \<lparr>pile = 4, mover = B, hist = [1]\<rparr>
   \<and> (\<exists>m \<in> set (moves pile_chess \<lparr>pile = 4, mover = B, hist = [1]\<rparr>). \<exists>moved c2 g'.
         move pile_chess \<lparr>pile = 4, mover = B, hist = [1]\<rparr> (parse_uci (uci_of m))
           = Inr (Some (moved, c2))
         \<and> applyMove pile_chess flip_rng (0::nat) (pile_room Solo Medium Playing 5) ''1'' ''a1a2''
             = (Inr \<lparr>ok = True, reason = None\<rparr>,
                maybeFinalize pile_chess
                  ((pile_room Solo Medium Playing 5)\<lparr>chess := c2, lastMove := Some (uci_of moved)\<rparr>),
                g')
         \<and> chess (fst (snd (applyMove pile_chess flip_rng (0::nat)
                (pile_room Solo Medium Playing 5) ''1'' ''a1a2''))) = c2
         \<and> turn pile_chess c2 = W)
   \<and> turn pile_chess (chess (fst (snd (applyMove pile_chess flip_rng (0::nat)
          (pile_room Solo Medium Playing 5) ''1'' ''a1a2'')))) = W
   \<and> move pile_chess (chess (pile_room Solo Medium Playing 1)) (parse_uci ''a1a2'')
       = Inr (Some (take_one, \<lparr>pile = 0, mover = B, hist = [1]\<rparr>))
   \<and> isGameOver pile_chess \<lparr>pile = 0, mover = B, hist = [1]\<rparr>
   \<and> status (fst (snd (applyMove pile_chess flip_rng (0::nat)
          (pile_room Solo Medium Playing 1) ''1'' ''a1a2''))) = Ended
   \<and> chess (fst (snd (applyMove pile_chess flip_rng (0::nat)
          (pile_room Solo Medium Playing 1) ''1'' ''a1a2''))) = \<lparr>pile = 0, mover = B, hist = [1]\<rparr>"
proof -
  have solo: "mode (selection (pile_room Solo Medium Playing n)) = Solo"
    and playing: "status (pile_room Solo Medium Playing n) = Playing"
    and white: "turn pile_chess (chess (pile_room Solo Medium Playing n)) = W"
    and seated: "occupies (seats (pile_room Solo Medium Playing n)) W ''1''" for n
    by (simp_all add: pile_room_def pile_chess_def occupies_def seat_at_def)
  have human5: "move pile_chess (chess (pile_room Solo Medium Playing 5)) (parse_uci ''a1a2'')
       = Inr (Some (take_one, \<lparr>pile = 4, mover = B, hist = [1]\<rparr>))"
    and human1: "move pile_chess (chess (pile_room Solo Medium Playing 1)) (parse_uci ''a1a2'')
       = Inr (Some (take_one, \<lparr>pile = 0, mover = B, hist = [1]\<rparr>))"
    by (simp_all add: pile_room_def pile_chess_def pile_move_def parse_uci_def input_of_def
        take_one_def other_def taken_def)
  have live: "\<not> isGameOver pile_chess \<lparr>pile = 4, mover = B, hist = [1]\<rparr>"
    and over: "isGameOver pile_chess \<lparr>pile = 0, mover = B, hist = [1]\<rparr>"
    by (simp_all add: pile_chess_def)
  note t5 = solo_reply [OF pile_moves_law pile_undo_law pile_turn_law pile_fen_law pile_shape_law
      flip_shuffle_law flip_random_law solo playing white seated human5, of 0]
  note t1 = solo_reply [OF pile_moves_law pile_undo_law pile_turn_law pile_fen_law pile_shape_law
      flip_shuffle_law flip_random_law solo playing white seated human1, of 0]
  note reply = t5 [THEN conjunct2, THEN mp, OF live]
  have back_to_white: "turn pile_chess (chess (fst (snd (applyMove pile_chess flip_rng (0::nat)
          (pile_room Solo Medium Playing 5) ''1'' ''a1a2'')))) = W"
    using reply by metis
  note ended = t1 [THEN conjunct1, THEN mp, OF over]
  show ?thesis
    by (intro conjI pile_moves_law pile_undo_law pile_turn_law pile_fen_law pile_shape_law
        flip_shuffle_law flip_random_law solo playing white seated human5 human1 live over reply
        back_to_white ended [THEN conjunct2, THEN conjunct1] ended [THEN conjunct2, THEN conjunct2])
qed

end
